theory Spec2Isabelle
  imports Complex_Main
begin

section \<open>DocInsight: the session state and the inline and block parsers of App.jsx\<close>

text \<open>
  The component \<^verbatim>\<open>App\<close> of \<^verbatim>\<open>src/App.jsx\<close> keeps fourteen \<^verbatim>\<open>useState\<close> cells and a
  handful of event handlers that write them. Each handler is embedded as a function
  from the state it reads to the state it leaves; a handler that awaits the language
  model client is cut at the \<^verbatim>\<open>await\<close>: its first half returns the new state together
  with the client call it issues (if any), and the two ways the promise can settle are
  transitions of their own. A JavaScript string is a \<^typ>\<open>string\<close>; the model therefore
  covers the code units 0 to 255, and the character classes below are the ECMAScript
  ones cut down to that range.
\<close>

subsection \<open>Strings\<close>

text \<open>
  White space as \<^verbatim>\<open>String.prototype.trim\<close> and the regular expression class \<^verbatim>\<open>\s\<close>
  see it: TAB, LF, VT, FF, CR, SPACE and NBSP.
\<close>

definition isSpace :: "char \<Rightarrow> bool" where
  "isSpace c = ((of_char c :: nat) \<in> {9, 10, 11, 12, 13, 32, 160})"

definition trim :: "string \<Rightarrow> string" where
  "trim s = rev (dropWhile isSpace (rev (dropWhile isSpace s)))"

text \<open>
  \<^verbatim>\<open>toLowerCase\<close>: the letters A to Z and the upper-case letters of Latin-1 (0xC0 to
  0xDE without the multiplication sign 0xD7) move up by 32.
\<close>

definition toLowerChar :: "char \<Rightarrow> char" where
  "toLowerChar c =
     (let n = (of_char c :: nat)
      in if (65 \<le> n \<and> n \<le> 90) \<or> (192 \<le> n \<and> n \<le> 222 \<and> n \<noteq> 215)
         then char_of (n + 32) else c)"

definition toLowerCase :: "string \<Rightarrow> string" where
  "toLowerCase s = map toLowerChar s"

definition endsWith :: "string \<Rightarrow> string \<Rightarrow> bool" where
  "endsWith s suffix =
     (length suffix \<le> length s \<and> drop (length s - length suffix) s = suffix)"

text \<open>The operator \<^verbatim>\<open>a || b\<close> on a string that may be missing: the empty string is falsy.\<close>

definition orElse :: "string option \<Rightarrow> string \<Rightarrow> string" where
  "orElse a b = (case a of None \<Rightarrow> b | Some m \<Rightarrow> if m = [] then b else m)"

subsection \<open>Session state\<close>

text \<open>
  A \<^verbatim>\<open>File\<close> as the handlers read it: its \<^verbatim>\<open>name\<close> and its \<^verbatim>\<open>type\<close> (here \<open>mime\<close>). A chat
  message is \<^verbatim>\<open>{type, content, id}\<close> (here \<open>msg_type\<close>, \<open>content\<close>, \<open>msg_id\<close>).
\<close>

record js_file =
  name :: string
  mime :: string

datatype message_type = User | Assistant

record message =
  msg_type :: message_type
  content :: string
  msg_id :: nat

text \<open>
  The rectangle of the clicked element, and the anchor computed from it. Pixel
  coordinates are taken as reals.
\<close>

record dom_rect =
  rect_left :: real
  rect_top :: real
  rect_width :: real

record app_state =
  inputText :: string
  summary :: string
  question :: string
  chatMessages :: "message list"
  isGeneratingSummary :: bool
  isAnswering :: bool
  error :: string
  selectedFile :: "js_file option"
  isDragging :: bool
  isProcessingFile :: bool
  clickedWord :: "string option"
  wordDefinition :: string
  isLoadingDefinition :: bool
  definitionPosition :: "real \<times> real"

definition initial_state :: app_state where
  "initial_state =
     \<lparr> inputText = [], summary = [], question = [], chatMessages = [],
       isGeneratingSummary = False, isAnswering = False, error = [],
       selectedFile = None, isDragging = False, isProcessingFile = False,
       clickedWord = None, wordDefinition = [], isLoadingDefinition = False,
       definitionPosition = (0, 0) \<rparr>"

text \<open>The three exports of \<^verbatim>\<open>gemini.js\<close>, as the calls a handler can issue.\<close>

datatype client_call =
    GenerateSummary "string option" "js_file option" "string option"
  | AnswerQuestion string string
  | GetWordDefinition string

subsection \<open>Word definitions: \<^verbatim>\<open>handleWordClick\<close> and \<^verbatim>\<open>closeDefinition\<close>\<close>

text \<open>
  \<^verbatim>\<open>handleWordClick\<close> up to its \<^verbatim>\<open>await\<close>. The position is written first, in both
  branches; the toggle branch returns without a client call.
\<close>

definition handleWordClick :: "string \<Rightarrow> dom_rect \<Rightarrow> app_state \<Rightarrow> app_state \<times> client_call option" where
  "handleWordClick word rect st =
     (let st1 = st\<lparr>definitionPosition :=
                      (rect_left rect + rect_width rect / 2, rect_top rect - 10)\<rparr>
      in if clickedWord st = Some word \<and> wordDefinition st \<noteq> []
         then (st1\<lparr>clickedWord := None, wordDefinition := []\<rparr>, None)
         else (st1\<lparr>clickedWord := Some word, wordDefinition := [],
                    isLoadingDefinition := True\<rparr>,
               Some (GetWordDefinition word)))"

text \<open>
  The rest of \<^verbatim>\<open>handleWordClick\<close> after the \<^verbatim>\<open>await\<close>: the \<^verbatim>\<open>try\<close> body when the
  promise for \<^verbatim>\<open>word\<close> resolves, the \<^verbatim>\<open>catch\<close> body when it rejects, and the
  \<^verbatim>\<open>finally\<close> block after either. The closure still holds \<^verbatim>\<open>word\<close>, and neither
  branch reads it.
\<close>

definition definitionResolved :: "string \<Rightarrow> string \<Rightarrow> app_state \<Rightarrow> app_state" where
  "definitionResolved word definition st =
     st\<lparr>wordDefinition := definition, isLoadingDefinition := False\<rparr>"

definition definitionRejected :: "string \<Rightarrow> app_state \<Rightarrow> app_state" where
  "definitionRejected word st =
     st\<lparr>wordDefinition := ''Failed to load definition. Please try again.'',
        isLoadingDefinition := False\<rparr>"

definition closeDefinition :: "app_state \<Rightarrow> app_state" where
  "closeDefinition st = st\<lparr>clickedWord := None, wordDefinition := []\<rparr>"

subsection \<open>Summaries: \<^verbatim>\<open>handleGenerateSummary\<close>\<close>

text \<open>
  \<^verbatim>\<open>isPDF\<close> is \<^verbatim>\<open>selectedFile && (type is application/pdf || lower-cased name ends
  with .pdf)\<close>; with no file selected it is \<^verbatim>\<open>null\<close>, which the guard reads as false.
\<close>

definition isPDF :: "app_state \<Rightarrow> bool" where
  "isPDF st =
     (case selectedFile st of
        None \<Rightarrow> False
      | Some f \<Rightarrow> mime f = ''application/pdf'' \<or> endsWith (toLowerCase (name f)) ''.pdf'')"

text \<open>
  \<^verbatim>\<open>handleGenerateSummary\<close> up to its \<^verbatim>\<open>await\<close>: the guard
  \<^verbatim>\<open>!inputText.trim() && !isPDF\<close> sets the error and returns; otherwise the busy flag is
  set, error, summary and chat are cleared, and the client is called with the file (when
  it is a PDF) or else with the text.
\<close>

definition handleGenerateSummary :: "app_state \<Rightarrow> app_state \<times> client_call option" where
  "handleGenerateSummary st =
     (if trim (inputText st) = [] \<and> \<not> isPDF st
      then (st\<lparr>error := ''Please enter some text or upload a file to summarize.''\<rparr>, None)
      else (st\<lparr>isGeneratingSummary := True, error := [], summary := [], chatMessages := []\<rparr>,
            Some (if isPDF st
                  then GenerateSummary None (selectedFile st) (Some ''application/pdf'')
                  else GenerateSummary (Some (inputText st)) None None)))"

definition summaryResolved :: "string \<Rightarrow> app_state \<Rightarrow> app_state" where
  "summaryResolved result st = st\<lparr>summary := result, isGeneratingSummary := False\<rparr>"

definition summaryRejected :: "string option \<Rightarrow> app_state \<Rightarrow> app_state" where
  "summaryRejected err_message st =
     st\<lparr>error := orElse err_message ''Failed to generate summary. Please check your API key.'',
        isGeneratingSummary := False\<rparr>"

text \<open>
  The precondition of \<^verbatim>\<open>beginSummarize\<close> in the words of the specification (section
  4.4): the input text is non-blank XOR an attachment is present.
\<close>

definition spec_beginSummarize_pre :: "app_state \<Rightarrow> bool" where
  "spec_beginSummarize_pre st = ((trim (inputText st) \<noteq> []) \<noteq> (selectedFile st \<noteq> None))"

subsection \<open>Questions: \<^verbatim>\<open>handleAskQuestion\<close>\<close>

text \<open>
  \<^verbatim>\<open>handleAskQuestion\<close> up to its \<^verbatim>\<open>await\<close>; \<open>now\<close> is the value of \<^verbatim>\<open>Date.now()\<close> when
  the user's message is built. The two settlements read the clock again.
\<close>

definition handleAskQuestion :: "nat \<Rightarrow> app_state \<Rightarrow> app_state \<times> client_call option" where
  "handleAskQuestion now st =
     (if trim (question st) = []
      then (st\<lparr>error := ''Please enter a question.''\<rparr>, None)
      else if summary st = []
      then (st\<lparr>error := ''Please generate a summary first.''\<rparr>, None)
      else (let userQuestion = trim (question st)
            in (st\<lparr>chatMessages := chatMessages st
                        @ [\<lparr>msg_type = User, content = userQuestion, msg_id = now\<rparr>],
                    question := [], isAnswering := True, error := []\<rparr>,
                Some (AnswerQuestion (summary st) userQuestion))))"

definition answerResolved :: "nat \<Rightarrow> string \<Rightarrow> app_state \<Rightarrow> app_state" where
  "answerResolved now result st =
     st\<lparr>chatMessages := chatMessages st
            @ [\<lparr>msg_type = Assistant, content = result, msg_id = now + 1\<rparr>],
        isAnswering := False\<rparr>"

definition answerRejected :: "nat \<Rightarrow> string option \<Rightarrow> app_state \<Rightarrow> app_state" where
  "answerRejected now err_message st =
     st\<lparr>error := orElse err_message ''Failed to answer question. Please check your API key.'',
        chatMessages := chatMessages st
            @ [\<lparr>msg_type = Assistant,
                content = ''Sorry, I encountered an error. Please try again.'',
                msg_id = now + 1\<rparr>],
        isAnswering := False\<rparr>"

subsection \<open>Input sources: \<^verbatim>\<open>handleFileSelect\<close>, \<^verbatim>\<open>handleClearFile\<close> and the textarea\<close>

definition validTypes :: "string list" where
  "validTypes = [''text/plain'', ''text/markdown'', ''text/html'', ''application/json'',
                 ''text/csv'', ''application/pdf'']"

definition validExtensions :: "string list" where
  "validExtensions = [''.txt'', ''.md'', ''.json'', ''.csv'', ''.html'', ''.pdf'']"

definition validFile :: "js_file \<Rightarrow> bool" where
  "validFile f =
     (mime f \<in> set validTypes
      \<or> list_ex (\<lambda>ext. endsWith (toLowerCase (name f)) ext) validExtensions)"

text \<open>
  \<^verbatim>\<open>handleFileSelect\<close> up to the point where it returns. The second component tells
  whether \<^verbatim>\<open>reader.readAsText(file)\<close> was started (a text file); the reader's two
  callbacks are the transitions \<open>readerOnload\<close> and \<open>readerOnerror\<close>. The \<^verbatim>\<open>catch\<close>
  block is not reachable from the statements of the \<^verbatim>\<open>try\<close> block on a \<^verbatim>\<open>File\<close> and is
  left out.
\<close>

definition handleFileSelect :: "js_file option \<Rightarrow> app_state \<Rightarrow> app_state \<times> bool" where
  "handleFileSelect file st =
     (case file of
        None \<Rightarrow> (st, False)
      | Some f \<Rightarrow>
          if \<not> validFile f
          then (st\<lparr>error := ''Please select a text file (.txt, .md, .json, .csv, .html) or PDF file (.pdf) or paste your text directly.''\<rparr>,
                False)
          else (let st1 = st\<lparr>selectedFile := Some f, error := [], inputText := [],
                              isProcessingFile := True\<rparr>
                in if mime f = ''application/pdf'' \<or> endsWith (toLowerCase (name f)) ''.pdf''
                   then (st1\<lparr>isProcessingFile := False\<rparr>, False)
                   else (st1, True)))"

definition readerOnload :: "string \<Rightarrow> app_state \<Rightarrow> app_state" where
  "readerOnload file_content st = st\<lparr>inputText := file_content, isProcessingFile := False\<rparr>"

definition readerOnerror :: "app_state \<Rightarrow> app_state" where
  "readerOnerror st =
     st\<lparr>error := ''Failed to read file. Please try again.'', isProcessingFile := False\<rparr>"

definition handleClearFile :: "app_state \<Rightarrow> app_state" where
  "handleClearFile st = st\<lparr>selectedFile := None, inputText := []\<rparr>"

text \<open>The textarea's \<^verbatim>\<open>onChange\<close>: \<^verbatim>\<open>(e) => setInputText(e.target.value)\<close>.\<close>

definition textareaOnChange :: "string \<Rightarrow> app_state \<Rightarrow> app_state" where
  "textareaOnChange v st = st\<lparr>inputText := v\<rparr>"


subsection \<open>Inline markup: the two regular expressions and the splitting loop\<close>

text \<open>
  The objects pushed by the splitting loops are \<^verbatim>\<open>{type, content}\<close> with the type one of
  \<^verbatim>\<open>"text"\<close>, \<^verbatim>\<open>"bold"\<close> and \<^verbatim>\<open>"complex"\<close>.
\<close>

datatype part = TextPart string | BoldPart string | ComplexPart string

fun part_content :: "part \<Rightarrow> string" where
  "part_content (TextPart c) = c"
| "part_content (BoldPart c) = c"
| "part_content (ComplexPart c) = c"

text \<open>
  \<^verbatim>\<open>text.substring(start, end)\<close> clamps both indices to the length and swaps them when
  they are out of order; \<^verbatim>\<open>text.substring(start)\<close> runs to the end.
\<close>

definition substring :: "string \<Rightarrow> nat \<Rightarrow> nat \<Rightarrow> string" where
  "substring s start finish =
     (let a = min start (length s); b = min finish (length s)
      in take (max a b - min a b) (drop (min a b) s))"

definition substringFrom :: "string \<Rightarrow> nat \<Rightarrow> string" where
  "substringFrom s start = drop (min start (length s)) s"

text \<open>
  Both regular expressions of the component have the shape
  \<^emph>\<open>opening literal, one or more characters other than one excluded character (the
  capture group), closing literal\<close>:
  \<^verbatim>\<open>/\*\*([^*]+)\*\*/g\<close> and \<^verbatim>\<open>/\[COMPLEX:([^\]]+)\]/g\<close>.
  A negated class also matches line breaks. The closing literal begins with the
  excluded character, so of all the lengths the greedy \<^verbatim>\<open>+\<close> can back off to, only the
  longest run can be followed by the closing literal: an attempt at index \<open>i\<close>
  succeeds exactly when the longest run of other characters after the opening literal
  is non-empty and the closing literal follows it. \<open>match_at\<close> returns the capture
  group \<^verbatim>\<open>match[1]\<close> and the length of \<^verbatim>\<open>match[0]\<close>.
\<close>

record regex =
  rx_open :: string
  rx_excluded :: char
  rx_close :: string

definition boldRegex :: regex where
  "boldRegex = \<lparr>rx_open = ''**'', rx_excluded = CHR ''*'', rx_close = ''**''\<rparr>"

definition complexWordRegex :: regex where
  "complexWordRegex = \<lparr>rx_open = ''[COMPLEX:'', rx_excluded = CHR '']'', rx_close = '']''\<rparr>"

definition match_at :: "regex \<Rightarrow> string \<Rightarrow> nat \<Rightarrow> (string \<times> nat) option" where
  "match_at rx text i =
     (let r = drop i text;
          body = takeWhile (\<lambda>c. c \<noteq> rx_excluded rx) (drop (length (rx_open rx)) r)
      in if take (length (rx_open rx)) r = rx_open rx \<and> body \<noteq> []
            \<and> take (length (rx_close rx)) (drop (length (rx_open rx) + length body) r) = rx_close rx
         then Some (body, length (rx_open rx) + length body + length (rx_close rx))
         else None)"

text \<open>
  \<^verbatim>\<open>regex.exec(text)\<close> of a global regular expression whose \<^verbatim>\<open>lastIndex\<close> is
  \<open>lastIndex\<close>: the first index from there up to the length of the text at which an
  attempt succeeds, with the capture group and the length of the match, or \<^verbatim>\<open>null\<close>.
  In the loops below the expression's own \<^verbatim>\<open>lastIndex\<close> and the local variable
  \<^verbatim>\<open>lastIndex\<close> are equal whenever \<^verbatim>\<open>exec\<close> is called: both are 0 at the start and both are
  the end of the match after each round.
\<close>

definition regex_exec :: "regex \<Rightarrow> string \<Rightarrow> nat \<Rightarrow> (nat \<times> string \<times> nat) option" where
  "regex_exec rx text lastIndex =
     (case find (\<lambda>i. match_at rx text i \<noteq> None) [lastIndex ..< Suc (length text)] of
        None \<Rightarrow> None
      | Some i \<Rightarrow> (case match_at rx text i of
                     None \<Rightarrow> None
                   | Some (group1, n) \<Rightarrow> Some (i, group1, n)))"

text \<open>
  The \<^verbatim>\<open>while ((match = regex.exec(text)) !== null)\<close> loop, which the component writes
  three times (in \<^verbatim>\<open>parseMarkdownBold\<close> and twice in \<^verbatim>\<open>renderSummary\<close>): push the text
  before the match when there is some, push the marked part, move \<^verbatim>\<open>lastIndex\<close> behind
  the match. \<open>mk\<close> builds the marked part. The loop returns the parts and the final
  \<^verbatim>\<open>lastIndex\<close>.
\<close>

function split_loop :: "regex \<Rightarrow> (string \<Rightarrow> part) \<Rightarrow> string \<Rightarrow> nat \<Rightarrow> part list \<Rightarrow> part list \<times> nat" where
  "split_loop rx mk text lastIndex parts =
     (case regex_exec rx text lastIndex of
        None \<Rightarrow> (parts, lastIndex)
      | Some (index, group1, n) \<Rightarrow>
          split_loop rx mk text (index + n)
            (parts
             @ (if index > lastIndex then [TextPart (substring text lastIndex index)] else [])
             @ [mk group1]))"
  by pat_completeness auto
termination
proof (relation "measure (\<lambda>(rx, mk, text, lastIndex, parts). Suc (length text) - lastIndex)")
  show "wf (measure (\<lambda>(rx, mk, text, lastIndex, parts). Suc (length text) - lastIndex))"
    by simp
next
  fix rx :: regex and mk :: "string \<Rightarrow> part" and src :: string and lastIndex :: nat
    and parts :: "part list" and x2 :: "nat \<times> string \<times> nat" and index :: nat
    and y :: "string \<times> nat" and group1 :: string and n :: nat
  assume ex: "regex_exec rx src lastIndex = Some x2" and x2: "(index, y) = x2"
    and y: "(group1, n) = y"
  from ex x2 y obtain i where
    f: "find (\<lambda>i. match_at rx src i \<noteq> None) [lastIndex ..< Suc (length src)] = Some i"
    and m: "match_at rx src i = Some (group1, n)" and i: "i = index"
    by (auto simp: regex_exec_def split: option.splits)
  from f have "i \<in> set [lastIndex ..< Suc (length src)]"
    by (metis find_Some_iff nth_mem)
  then have r: "lastIndex \<le> index" "index < Suc (length src)"
    using i by (simp_all only: set_upt atLeastLessThan_iff)
  from m have "0 < n"
    by (auto simp: match_at_def Let_def split: if_splits)
  with r show "((rx, mk, src, index + n,
                 parts @ (if lastIndex < index then [TextPart (substring src lastIndex index)] else [])
                   @ [mk group1]),
                rx, mk, src, lastIndex, parts)
               \<in> measure (\<lambda>(rx, mk, src, lastIndex, parts). Suc (length src) - lastIndex)"
    by simp
qed

declare split_loop.simps [simp del]

text \<open>
  \<^verbatim>\<open>parseMarkdownBold\<close>: the loop for the bold expression, the remaining text, and the
  fallback to one text part when nothing was pushed.
\<close>

definition parseMarkdownBold :: "string \<Rightarrow> part list" where
  "parseMarkdownBold text =
     (let (parts, lastIndex) = split_loop boldRegex BoldPart text 0 [];
          parts = (if lastIndex < length text
                   then parts @ [TextPart (substringFrom text lastIndex)] else parts)
      in if length parts > 0 then parts else [TextPart text])"

text \<open>
  The same steps for the complex-word expression, as \<^verbatim>\<open>renderSummary\<close> performs them on
  the content of a paragraph (\<^verbatim>\<open>finalParts\<close>) and on each list item
  (\<^verbatim>\<open>finalItemParts\<close>).
\<close>

definition parseComplexWords :: "string \<Rightarrow> part list" where
  "parseComplexWords text =
     (let (parts, lastIndex) = split_loop complexWordRegex ComplexPart text 0 [];
          parts = (if lastIndex < length text
                   then parts @ [TextPart (substringFrom text lastIndex)] else parts)
      in if length parts > 0 then parts else [TextPart text])"

text \<open>
  What is displayed: \<^verbatim>\<open>renderTextWithMarkdown\<close> turns a bold part into a \<^verbatim>\<open>strong\<close>
  element and any other part into a plain \<^verbatim>\<open>span\<close>; \<^verbatim>\<open>renderSummary\<close> turns a complex
  part into the clickable \<^verbatim>\<open>complex-word\<close> span and hands the content of any other part
  to \<^verbatim>\<open>renderTextWithMarkdown\<close>. The elements are listed from left to right.
\<close>

datatype element = Span string | Strong string | ComplexWord string


definition renderTextWithMarkdown :: "string \<Rightarrow> element list" where
  "renderTextWithMarkdown text =
     map (\<lambda>p. case p of BoldPart c \<Rightarrow> Strong c | _ \<Rightarrow> Span (part_content p))
         (parseMarkdownBold text)"

definition renderSegments :: "part list \<Rightarrow> element list" where
  "renderSegments segments =
     concat (map (\<lambda>segment. case segment of
                     ComplexPart c \<Rightarrow> [ComplexWord c]
                   | _ \<Rightarrow> renderTextWithMarkdown (part_content segment)) segments)"

definition renderInline :: "string \<Rightarrow> element list" where
  "renderInline text = renderSegments (parseComplexWords text)"



text \<open>
  A text contains a marker of an expression when an attempt succeeds at some index.
\<close>

definition contains_marker :: "regex \<Rightarrow> string \<Rightarrow> bool" where
  "contains_marker rx text =
     list_ex (\<lambda>i. match_at rx text i \<noteq> None) [0 ..< Suc (length text)]"

definition no_markup :: "string \<Rightarrow> bool" where
  "no_markup text =
     (\<not> contains_marker boldRegex text \<and> \<not> contains_marker complexWordRegex text)"

subsection \<open>Stripping marker syntax\<close>

text \<open>
  What it means to strip the markers of one expression from a text, stated on the text
  alone: going from left to right, a marker that starts at the current character is
  replaced by its captured text and the scan goes on behind it; any other character is
  kept.
\<close>

function strip_markers :: "regex \<Rightarrow> string \<Rightarrow> string" where
  "strip_markers rx [] = []"
| "strip_markers rx (c # cs) =
     (case match_at rx (c # cs) 0 of
        Some (g, n) \<Rightarrow> g @ strip_markers rx (drop n (c # cs))
      | None \<Rightarrow> c # strip_markers rx cs)"
  by pat_completeness auto
termination
proof (relation "measure (\<lambda>(rx, s). length s)")
  show "wf (measure (\<lambda>(rx, s). length s))" by simp
next
  fix rx :: regex and c :: char and cs :: string and x2 :: "string \<times> nat" and g :: string and n :: nat
  assume "match_at rx (c # cs) 0 = Some x2" and "(g, n) = x2"
  then have "0 < n" by (auto simp: match_at_def Let_def split: if_splits)
  then show "((rx, drop n (c # cs)), rx, c # cs) \<in> measure (\<lambda>(rx, s). length s)" by simp
next
  fix rx :: regex and c :: char and cs :: string
  show "((rx, cs), rx, c # cs) \<in> measure (\<lambda>(rx, s). length s)" by simp
qed

text \<open>
  The stripping that the scan of the specification (section 4.1) describes: one pass
  from left to right that recognises a complex-term marker or else a bold marker at
  the current character.
\<close>

function spec_strip :: "string \<Rightarrow> string" where
  "spec_strip [] = []"
| "spec_strip (c # cs) =
     (case match_at complexWordRegex (c # cs) 0 of
        Some (g, n) \<Rightarrow> g @ spec_strip (drop n (c # cs))
      | None \<Rightarrow>
          (case match_at boldRegex (c # cs) 0 of
             Some (g, n) \<Rightarrow> g @ spec_strip (drop n (c # cs))
           | None \<Rightarrow> c # spec_strip cs))"
  by pat_completeness auto
termination
proof (relation "measure length")
  show "wf (measure length)" by simp
next
  fix c :: char and cs :: string and x2 :: "string \<times> nat" and g :: string and n :: nat
  assume "match_at complexWordRegex (c # cs) 0 = Some x2" and "(g, n) = x2"
  then have "0 < n" by (auto simp: match_at_def Let_def split: if_splits)
  then show "(drop n (c # cs), c # cs) \<in> measure length" by simp
next
  fix c :: char and cs :: string and x2 :: "string \<times> nat" and g :: string and n :: nat
  assume "match_at boldRegex (c # cs) 0 = Some x2" and "(g, n) = x2"
  then have "0 < n" by (auto simp: match_at_def Let_def split: if_splits)
  then show "(drop n (c # cs), c # cs) \<in> measure length" by simp
next
  fix c :: char and cs :: string
  show "(cs, c # cs) \<in> measure length" by simp
qed

text \<open>
  The stripping in two passes: complex-term markers are recognised from left to right,
  and the bold markers are stripped from each run of text before, between and behind
  them. \<open>run\<close> is the text since the last complex-term marker.
\<close>

function strip_runs :: "string \<Rightarrow> string \<Rightarrow> string" where
  "strip_runs run [] = strip_markers boldRegex run"
| "strip_runs run (c # cs) =
     (case match_at complexWordRegex (c # cs) 0 of
        Some (g, n) \<Rightarrow> strip_markers boldRegex run @ g @ strip_runs [] (drop n (c # cs))
      | None \<Rightarrow> strip_runs (run @ [c]) cs)"
  by pat_completeness auto
termination
proof (relation "measure (\<lambda>(run, s). length s)")
  show "wf (measure (\<lambda>(run, s). length s))" by simp
next
  fix run :: string and c :: char and cs :: string and x2 :: "string \<times> nat" and g :: string and n :: nat
  assume "match_at complexWordRegex (c # cs) 0 = Some x2" and "(g, n) = x2"
  then have "0 < n" by (auto simp: match_at_def Let_def split: if_splits)
  then show "(([], drop n (c # cs)), run, c # cs) \<in> measure (\<lambda>(run, s). length s)" by simp
next
  fix run :: string and c :: char and cs :: string
  show "((run @ [c], cs), run, c # cs) \<in> measure (\<lambda>(run, s). length s)" by simp
qed



declare strip_markers.simps [simp del] spec_strip.simps [simp del] strip_runs.simps [simp del]

subsection \<open>Blocks: \<^verbatim>\<open>parseMarkdownLists\<close>\<close>

text \<open>\<^verbatim>\<open>text.split("\n")\<close> and \<^verbatim>\<open>lines.join("\n")\<close>.\<close>

fun split_nl :: "string \<Rightarrow> string list" where
  "split_nl [] = [[]]"
| "split_nl (c # cs) =
     (if c = CHR ''\<newline>'' then [] # split_nl cs
      else (case split_nl cs of [] \<Rightarrow> [[c]] | l # ls \<Rightarrow> (c # l) # ls))"

fun join_nl :: "string list \<Rightarrow> string" where
  "join_nl [] = []"
| "join_nl [l] = l"
| "join_nl (l # ls) = l @ CHR ''\<newline>'' # join_nl ls"

text \<open>
  The bullet pattern \<^verbatim>\<open>/^[\s]*[-*]\s+(.+)$/\<close>, applied with \<^verbatim>\<open>line.match\<close>; the result is
  the capture group \<^verbatim>\<open>match[1]\<close> or \<^verbatim>\<open>null\<close>. The dot matches every character but a
  line terminator (LF and CR in this range), and without the \<^verbatim>\<open>m\<close> flag the \<^verbatim>\<open>$\<close> is the
  end of the line. The leading \<^verbatim>\<open>[\s]*\<close> must take all the leading white space, since
  the bullet character is not white space. After the bullet character, the greedy
  \<^verbatim>\<open>\s+\<close> first takes the whole run \<open>ws\<close> of white space. If something follows the run,
  the group is that rest, which must be free of line terminators (backing off would
  only make the group longer, with the same rest inside). If nothing follows, \<^verbatim>\<open>\s+\<close>
  backs off by one character, which needs a run of two or more, and the group is the
  last character of the run, provided the dot matches it.
\<close>

definition isDot :: "char \<Rightarrow> bool" where
  "isDot c = (c \<noteq> CHR ''\<newline>'' \<and> c \<noteq> CHR 0x0D)"

definition bulletMatch :: "string \<Rightarrow> string option" where
  "bulletMatch line =
     (case dropWhile isSpace line of
        [] \<Rightarrow> None
      | c # r \<Rightarrow>
          if c = CHR ''-'' \<or> c = CHR ''*''
          then (let ws = takeWhile isSpace r; rest = dropWhile isSpace r
                in if ws = [] then None
                   else if rest = []
                   then (if 2 \<le> length ws \<and> isDot (last ws) then Some [last ws] else None)
                   else (if list_all isDot rest then Some rest else None))
          else None)"

text \<open>
  The blocks pushed to \<^verbatim>\<open>result\<close>: \<^verbatim>\<open>{type: "paragraph", content}\<close> and
  \<^verbatim>\<open>{type: "list", items}\<close>; and the three variables of the loop.
\<close>

datatype block = Paragraph string | BulletList "string list"

record parse_state =
  result :: "block list"
  currentList :: "string list"
  currentParagraph :: "string list"

definition flushParagraph :: "parse_state \<Rightarrow> parse_state" where
  "flushParagraph st =
     (if length (currentParagraph st) > 0
      then st\<lparr>result := result st @ [Paragraph (join_nl (currentParagraph st))],
              currentParagraph := []\<rparr>
      else st)"

definition flushList :: "parse_state \<Rightarrow> parse_state" where
  "flushList st =
     (if length (currentList st) > 0
      then st\<lparr>result := result st @ [BulletList (currentList st)], currentList := []\<rparr>
      else st)"

text \<open>The body of \<^verbatim>\<open>for (const line of lines)\<close>.\<close>

definition processLine :: "parse_state \<Rightarrow> string \<Rightarrow> parse_state" where
  "processLine st line =
     (case bulletMatch line of
        Some group1 \<Rightarrow>
          (let st1 = flushParagraph st
           in st1\<lparr>currentList := currentList st1 @ [trim group1]\<rparr>)
      | None \<Rightarrow>
          (let st1 = flushList st
           in if trim line \<noteq> [] \<or> length (currentParagraph st1) > 0
              then st1\<lparr>currentParagraph := currentParagraph st1 @ [line]\<rparr>
              else st1))"

definition emptyParse :: parse_state where
  "emptyParse = \<lparr>result = [], currentList = [], currentParagraph = []\<rparr>"

definition parseMarkdownLists :: "string \<Rightarrow> block list" where
  "parseMarkdownLists text =
     (let st = foldl processLine emptyParse (split_nl text);
          st = flushList (flushParagraph st)
      in if length (result st) > 0 then result st else [Paragraph text])"

subsection \<open>The rendered summary: \<^verbatim>\<open>renderSummary\<close>\<close>

text \<open>
  \<^verbatim>\<open>renderSummary\<close> returns nothing for an empty text; otherwise each list block becomes
  a \<^verbatim>\<open>ul\<close> with one rendered line per item, and each paragraph block a \<^verbatim>\<open>div\<close> with the
  rendered content.
\<close>

datatype rendered_block = Ul "element list list" | Div "element list"

definition renderSummary :: "string \<Rightarrow> rendered_block list" where
  "renderSummary text =
     (if text = [] then []
      else map (\<lambda>part. case part of
                   BulletList items \<Rightarrow> Ul (map renderInline items)
                 | Paragraph c \<Rightarrow> Div (renderInline c))
               (parseMarkdownLists text))"

subsection \<open>Lines in and lines out\<close>

text \<open>
  To say which lines of the input reach the output, the blocks are read back as
  lines: a paragraph gives the lines of its content and a list gives its items. A
  bullet line reaches the output as its trimmed capture group, any other line as it
  is.
\<close>

fun block_lines :: "block \<Rightarrow> string list" where
  "block_lines (Paragraph c) = split_nl c"
| "block_lines (BulletList items) = items"

definition line_out :: "string \<Rightarrow> string" where
  "line_out l = (case bulletMatch l of Some g \<Rightarrow> trim g | None \<Rightarrow> l)"

text \<open>
  The lines that are kept, stated on the lines alone: a paragraph is open after a kept
  line that is not a bullet line, and it is closed by a bullet line; a blank line is
  left out exactly when it comes while no paragraph is open.
\<close>

fun kept_lines :: "bool \<Rightarrow> string list \<Rightarrow> string list" where
  "kept_lines paragraph_open [] = []"
| "kept_lines paragraph_open (l # ls) =
     (if bulletMatch l \<noteq> None then l # kept_lines False ls
      else if trim l = [] \<and> \<not> paragraph_open then kept_lines False ls
      else l # kept_lines True ls)"

text \<open>
  The lines held by a state of the loop, and what holds of every state the loop
  reaches: the open paragraph's lines have no line break inside, the list and the
  paragraph are never open together, and no pushed block is empty.
\<close>

definition state_lines :: "parse_state \<Rightarrow> string list" where
  "state_lines st = concat (map block_lines (result st)) @ currentList st @ currentParagraph st"

definition state_ok :: "parse_state \<Rightarrow> bool" where
  "state_ok st =
     ((\<forall>l \<in> set (currentParagraph st). CHR ''\<newline>'' \<notin> set l)
      \<and> (currentList st = [] \<or> currentParagraph st = [])
      \<and> (\<forall>b \<in> set (result st). block_lines b \<noteq> []))"

subsection \<open>The regular expressions, item by item\<close>

text \<open>
  The closed forms \<open>match_at\<close> and \<open>bulletMatch\<close> above rest on an argument about
  backtracking. To check that argument, the three expressions are written down item
  by item and run by a matcher that backtracks as the ECMAScript matcher does: a
  greedy \<^verbatim>\<open>*\<close> or \<^verbatim>\<open>+\<close> on a character class first takes the longest run and gives
  characters back one at a time until the rest of the expression matches. \<open>CapPlus\<close>
  is a \<^verbatim>\<open>+\<close> inside the capture group; each expression has exactly one group, and it
  takes part in every match. The matcher returns the captured text and the length of
  the match. \<open>pos\<close> is the index in the whole text, which \<^verbatim>\<open>^\<close> needs.
\<close>

datatype rx_item =
    Lit string | One "char \<Rightarrow> bool" | Star "char \<Rightarrow> bool" | Plus "char \<Rightarrow> bool"
  | CapPlus "char \<Rightarrow> bool" | Bol | Eol

fun first_some :: "'a option list \<Rightarrow> 'a option" where
  "first_some [] = None"
| "first_some (None # xs) = first_some xs"
| "first_some (Some x # xs) = Some x"

definition advance :: "nat \<Rightarrow> (string \<times> nat) option \<Rightarrow> (string \<times> nat) option" where
  "advance n r = map_option (\<lambda>(g, m). (g, n + m)) r"

definition captured :: "string \<Rightarrow> (string \<times> nat) option \<Rightarrow> (string \<times> nat) option" where
  "captured g r = map_option (\<lambda>(_, m). (g, length g + m)) r"

fun rx_match :: "rx_item list \<Rightarrow> nat \<Rightarrow> string \<Rightarrow> (string \<times> nat) option" where
  "rx_match [] pos s = Some ([], 0)"
| "rx_match (Lit l # r) pos s =
     (if take (length l) s = l
      then advance (length l) (rx_match r (pos + length l) (drop (length l) s)) else None)"
| "rx_match (One P # r) pos s =
     (case s of [] \<Rightarrow> None
      | c # cs \<Rightarrow> if P c then advance 1 (rx_match r (pos + 1) cs) else None)"
| "rx_match (Star P # r) pos s =
     first_some (map (\<lambda>n. advance n (rx_match r (pos + n) (drop n s)))
                     (rev [0 ..< Suc (length (takeWhile P s))]))"
| "rx_match (Plus P # r) pos s =
     first_some (map (\<lambda>n. advance n (rx_match r (pos + n) (drop n s)))
                     (rev [1 ..< Suc (length (takeWhile P s))]))"
| "rx_match (CapPlus P # r) pos s =
     first_some (map (\<lambda>n. captured (take n s) (rx_match r (pos + n) (drop n s)))
                     (rev [1 ..< Suc (length (takeWhile P s))]))"
| "rx_match (Bol # r) pos s = (if pos = 0 then rx_match r pos s else None)"
| "rx_match (Eol # r) pos s = (if s = [] then rx_match r pos s else None)"

declare rx_match.simps [simp del]

text \<open>
  \<^verbatim>\<open>/\*\*([^*]+)\*\*/\<close>, \<^verbatim>\<open>/\[COMPLEX:([^\]]+)\]/\<close> and \<^verbatim>\<open>/^[\s]*[-*]\s+(.+)$/\<close>.
\<close>

definition boldItems :: "rx_item list" where
  "boldItems = [Lit ''**'', CapPlus (\<lambda>c. c \<noteq> CHR ''*''), Lit ''**'']"

definition complexWordItems :: "rx_item list" where
  "complexWordItems = [Lit ''[COMPLEX:'', CapPlus (\<lambda>c. c \<noteq> CHR '']''), Lit '']'']"

definition bulletItems :: "rx_item list" where
  "bulletItems = [Bol, Star isSpace, One (\<lambda>c. c = CHR ''-'' \<or> c = CHR ''*''), Plus isSpace,
                  CapPlus isDot, Eol]"

definition marker_items :: "regex \<Rightarrow> rx_item list" where
  "marker_items rx = [Lit (rx_open rx), CapPlus (\<lambda>c. c \<noteq> rx_excluded rx), Lit (rx_close rx)]"

text \<open>
  \<^verbatim>\<open>regex.exec(text)\<close> with the global flag, and \<^verbatim>\<open>line.match(regex)\<close> without it (the
  capture group of the first index at which an attempt succeeds), on the item lists.
\<close>

definition items_exec :: "rx_item list \<Rightarrow> string \<Rightarrow> nat \<Rightarrow> (nat \<times> string \<times> nat) option" where
  "items_exec items text lastIndex =
     (case find (\<lambda>i. rx_match items i (drop i text) \<noteq> None) [lastIndex ..< Suc (length text)] of
        None \<Rightarrow> None
      | Some i \<Rightarrow> (case rx_match items i (drop i text) of
                     None \<Rightarrow> None
                   | Some (group1, n) \<Rightarrow> Some (i, group1, n)))"

definition items_match :: "rx_item list \<Rightarrow> string \<Rightarrow> string option" where
  "items_match items line =
     map_option fst
       (first_some (map (\<lambda>i. rx_match items i (drop i line)) [0 ..< Suc (length line)]))"

subsection \<open>Sample values\<close>

definition rect0 :: dom_rect where
  "rect0 = \<lparr>rect_left = 0, rect_top = 0, rect_width = 0\<rparr>"

definition pdf0 :: js_file where
  "pdf0 = \<lparr>name = ''paper.PDF'', mime = []\<rparr>"

definition txt0 :: js_file where
  "txt0 = \<lparr>name = ''notes.txt'', mime = ''text/plain''\<rparr>"

section \<open>Properties\<close>

subsection \<open>Facts about the regular expressions and the splitting loop\<close>

text \<open>
  A successful attempt at index \<open>i\<close> covers the opening literal, the captured run and
  the closing literal, all inside the text.
\<close>

lemma match_at_SomeD:
  assumes "match_at rx text i = Some (g, n)"
  shows "g \<noteq> []" and "rx_excluded rx \<notin> set g"
    and "n = length (rx_open rx) + length g + length (rx_close rx)"
    and "take n (drop i text) = rx_open rx @ g @ rx_close rx"
    and "i + n \<le> length text"
proof -
  let ?r = "drop i text"
  let ?o = "length (rx_open rx)"
  let ?b = "takeWhile (\<lambda>c. c \<noteq> rx_excluded rx) (drop ?o ?r)"
  from assms have g: "g = ?b" and ne: "?b \<noteq> []"
    and n: "n = ?o + length ?b + length (rx_close rx)"
    and o: "take ?o ?r = rx_open rx"
    and c: "take (length (rx_close rx)) (drop (?o + length ?b) ?r) = rx_close rx"
    by (auto simp: match_at_def Let_def split: if_splits)
  show "g \<noteq> []" using g ne by simp
  show "rx_excluded rx \<notin> set g" using g by (auto dest: set_takeWhileD)
  show n': "n = length (rx_open rx) + length g + length (rx_close rx)" using g n by simp
  have b: "take (length ?b) (drop ?o ?r) = ?b"
    by (rule takeWhile_eq_take [symmetric])
  have "take n ?r = take ?o ?r @ take (length ?b + length (rx_close rx)) (drop ?o ?r)"
    unfolding n by (simp only: take_add add.assoc)
  also have "take (length ?b + length (rx_close rx)) (drop ?o ?r)
      = take (length ?b) (drop ?o ?r) @ take (length (rx_close rx)) (drop (length ?b) (drop ?o ?r))"
    by (simp only: take_add)
  also have "drop (length ?b) (drop ?o ?r) = drop (?o + length ?b) ?r"
    by (simp add: ac_simps)
  finally show t: "take n (drop i text) = rx_open rx @ g @ rx_close rx"
    using o b c g by simp
  have "length (take n (drop i text)) = n" unfolding t using n' by simp
  then have "n \<le> length text - i" by simp
  moreover have "0 < n" using n' \<open>g \<noteq> []\<close> by simp
  ultimately show "i + n \<le> length text" by arith
qed














lemma regex_exec_None:
  assumes "\<not> contains_marker rx s"
  shows "regex_exec rx s 0 = None"
proof -
  from assms have "find (\<lambda>i. match_at rx s i \<noteq> None) [0 ..< Suc (length s)] = None"
    unfolding contains_marker_def list_ex_iff find_None_iff by blast
  then show ?thesis unfolding regex_exec_def by (simp only: option.simps)
qed

lemma no_marker_parts:
  assumes "\<not> contains_marker rx s"
  shows "(let (parts, lastIndex) = split_loop rx mk s 0 [];
          parts = (if lastIndex < length s
                   then parts @ [TextPart (substringFrom s lastIndex)] else parts)
      in if length parts > 0 then parts else [TextPart s]) = [TextPart s]"
  using regex_exec_None [OF assms]
  by (simp add: split_loop.simps [of rx mk s 0 "[]"] substringFrom_def)

lemma no_markup_bold: "\<not> contains_marker boldRegex s \<Longrightarrow> parseMarkdownBold s = [TextPart s]"
  unfolding parseMarkdownBold_def by (rule no_marker_parts)

lemma no_markup_complex:
  "\<not> contains_marker complexWordRegex s \<Longrightarrow> parseComplexWords s = [TextPart s]"
  unfolding parseComplexWords_def by (rule no_marker_parts)

lemma no_markup_inline: "no_markup s \<Longrightarrow> renderInline s = [Span s]"
  by (simp add: no_markup_def renderInline_def renderSegments_def renderTextWithMarkdown_def
      no_markup_bold no_markup_complex)

lemma contains_marker_iff:
  assumes cl: "rx_close rx \<noteq> []" "hd (rx_close rx) = rx_excluded rx"
  shows "contains_marker rx s \<longleftrightarrow>
         (\<exists>pre g post. s = pre @ rx_open rx @ g @ rx_close rx @ post
                        \<and> g \<noteq> [] \<and> rx_excluded rx \<notin> set g)"
proof
  assume "contains_marker rx s"
  then obtain i g n where m: "match_at rx s i = Some (g, n)"
    by (auto simp: contains_marker_def list_ex_iff)
  from match_at_SomeD [OF m]
  have g: "g \<noteq> []" "rx_excluded rx \<notin> set g"
    and t: "take n (drop i s) = rx_open rx @ g @ rx_close rx" by simp_all
  have "s = take i s @ take n (drop i s) @ drop n (drop i s)"
    by (simp only: append_take_drop_id)
  then have "s = take i s @ rx_open rx @ g @ rx_close rx @ drop n (drop i s)"
    by (simp only: t append_assoc)
  with g show "\<exists>pre g post. s = pre @ rx_open rx @ g @ rx_close rx @ post
                        \<and> g \<noteq> [] \<and> rx_excluded rx \<notin> set g" by blast
next
  assume "\<exists>pre g post. s = pre @ rx_open rx @ g @ rx_close rx @ post
                        \<and> g \<noteq> [] \<and> rx_excluded rx \<notin> set g"
  then obtain pre g post where s: "s = pre @ rx_open rx @ g @ rx_close rx @ post"
    and g: "g \<noteq> []" "rx_excluded rx \<notin> set g" by blast
  from cl obtain cs where c: "rx_close rx = rx_excluded rx # cs"
    by (cases "rx_close rx") auto
  have tw: "takeWhile (\<lambda>c. c \<noteq> rx_excluded rx) (g @ rx_close rx @ post) = g"
    using g(2) by (subst takeWhile_append2) (auto simp: c)
  have "match_at rx s (length pre) = Some (g, length (rx_open rx) + length g + length (rx_close rx))"
    unfolding match_at_def s using g(1) by (simp add: tw)
  moreover have "length pre \<in> set [0 ..< Suc (length s)]"
    unfolding s by simp
  ultimately show "contains_marker rx s"
    unfolding contains_marker_def list_ex_iff by blast
qed

lemma no_markup_iff:
  "no_markup s \<longleftrightarrow>
     \<not> (\<exists>pre g post. s = pre @ ''**'' @ g @ ''**'' @ post \<and> g \<noteq> [] \<and> CHR ''*'' \<notin> set g)
   \<and> \<not> (\<exists>pre g post. s = pre @ ''[COMPLEX:'' @ g @ '']'' @ post \<and> g \<noteq> [] \<and> CHR '']'' \<notin> set g)"
proof -
  have b: "contains_marker boldRegex s \<longleftrightarrow>
      (\<exists>pre g post. s = pre @ ''**'' @ g @ ''**'' @ post \<and> g \<noteq> [] \<and> CHR ''*'' \<notin> set g)"
    using contains_marker_iff [of boldRegex s] by (simp add: boldRegex_def)
  have c: "contains_marker complexWordRegex s \<longleftrightarrow>
      (\<exists>pre g post. s = pre @ ''[COMPLEX:'' @ g @ '']'' @ post \<and> g \<noteq> [] \<and> CHR '']'' \<notin> set g)"
    using contains_marker_iff [of complexWordRegex s] by (simp add: complexWordRegex_def)
  show ?thesis unfolding no_markup_def b c ..
qed

text \<open>The end-to-end example of the specification.\<close>

lemma renderSummary_example:
  "renderSummary ''Plants use [COMPLEX:photosynthesis] to make food.''
   = [Div [Span ''Plants use '', ComplexWord ''photosynthesis'', Span '' to make food.'']]"
  by code_simp

subsection \<open>Payloads and stripped text\<close>

































subsection \<open>The closed forms against the backtracking matcher\<close>

lemma first_some_None: "(\<forall>x \<in> set xs. x = None) \<Longrightarrow> first_some xs = None"
  by (induction xs rule: first_some.induct) auto

lemma first_some_down:
  "first_some (map f (rev [lo ..< Suc k])) =
     (if k < lo then None
      else case f k of Some v \<Rightarrow> Some v | None \<Rightarrow> first_some (map f (rev [lo ..< k])))"
  by (cases "f k") auto

lemma first_some_top:
  assumes "\<And>n. lo \<le> n \<Longrightarrow> n < k \<Longrightarrow> f n = None"
  shows "first_some (map f (rev [lo ..< Suc k])) = (if k < lo then None else f k)"
proof -
  have "first_some (map f (rev [lo ..< k])) = None"
    using assms by (intro first_some_None) auto
  then show ?thesis unfolding first_some_down by (simp split: option.splits)
qed

lemma in_run_nth:
  "n < length (takeWhile P s) \<Longrightarrow> drop n s = s ! n # drop (Suc n) s \<and> P (s ! n)"
proof -
  assume n: "n < length (takeWhile P s)"
  then have l: "n < length s" using length_takeWhile_le [of P s] by simp
  have "P (takeWhile P s ! n)" using n by (meson nth_mem set_takeWhileD)
  then have "P (s ! n)" using n by (simp add: takeWhile_nth)
  with l show ?thesis by (simp add: Cons_nth_drop_Suc)
qed

lemma captured_run:
  "captured (take (length (takeWhile P t)) t)
      (rx_match [Lit cl] p (drop (length (takeWhile P t)) t))
   = (if take (length cl) (drop (length (takeWhile P t)) t) = cl
      then Some (takeWhile P t, length (takeWhile P t) + length cl) else None)"
proof -
  have "take (length (takeWhile P t)) t = takeWhile P t"
    by (rule takeWhile_eq_take [symmetric])
  then show ?thesis by (simp add: rx_match.simps captured_def advance_def)
qed

lemma match_at_backtracking:
  assumes cl: "rx_close rx = rx_excluded rx # cs"
  shows "match_at rx s i = rx_match (marker_items rx) i (drop i s)"
proof -
  let ?r = "drop i s"
  let ?o = "length (rx_open rx)"
  let ?r' = "drop ?o ?r"
  let ?P = "\<lambda>c. c \<noteq> rx_excluded rx"
  let ?k = "length (takeWhile ?P ?r')"
  let ?f = "\<lambda>n. captured (take n ?r')
              (rx_match [Lit (rx_close rx)] (i + ?o + n) (drop n ?r'))"
  have none: "?f n = None" if "1 \<le> n" "n < ?k" for n
  proof -
    from in_run_nth [OF that(2)] obtain c t where d: "drop n ?r' = c # t" and c: "c \<noteq> rx_excluded rx"
      by blast
    show ?thesis by (simp only: d) (simp add: rx_match.simps cl c captured_def advance_def)
  qed
  have top: "first_some (map ?f (rev [1 ..< Suc ?k])) = (if ?k < 1 then None else ?f ?k)"
    by (rule first_some_top) (rule none)
  have fk: "?f ?k = (if take (length (rx_close rx)) (drop ?k ?r') = rx_close rx
                     then Some (takeWhile ?P ?r', ?k + length (rx_close rx)) else None)"
    by (rule captured_run)
  have "rx_match (marker_items rx) i ?r
        = (if take ?o ?r = rx_open rx
           then advance ?o (first_some (map ?f (rev [1 ..< Suc ?k]))) else None)"
    by (simp add: marker_items_def rx_match.simps)
  also have "\<dots> = match_at rx s i"
    unfolding top fk match_at_def Let_def
    by (auto simp: advance_def ac_simps)
  finally show ?thesis by simp
qed

lemma bold_match_backtracking:
  "match_at boldRegex s i = rx_match boldItems i (drop i s)"
  using match_at_backtracking [of boldRegex "''*''" s i]
  by (simp add: boldRegex_def marker_items_def boldItems_def)

lemma complex_match_backtracking:
  "match_at complexWordRegex s i = rx_match complexWordItems i (drop i s)"
  using match_at_backtracking [of complexWordRegex "[]" s i]
  by (simp add: complexWordRegex_def marker_items_def complexWordItems_def)

lemma dot_to_end:
  "rx_match [CapPlus isDot, Eol] p t
   = (if t \<noteq> [] \<and> list_all isDot t then Some (t, length t) else None)"
proof -
  let ?k = "length (takeWhile isDot t)"
  let ?E = "\<lambda>n. captured (take n t) (rx_match [Eol] (p + n) (drop n t))"
  have none: "?E n = None" if "1 \<le> n" "n < ?k" for n
  proof -
    have "n < length t" using that(2) length_takeWhile_le [of isDot t] by simp
    then show ?thesis by (simp add: rx_match.simps captured_def)
  qed
  have m: "rx_match [CapPlus isDot, Eol] p t = first_some (map ?E (rev [1 ..< Suc ?k]))"
    by (simp only: rx_match.simps(6))
  have top: "rx_match [CapPlus isDot, Eol] p t = (if ?k < 1 then None else ?E ?k)"
    unfolding m by (rule first_some_top) (rule none)
  show ?thesis
  proof (cases "t \<noteq> [] \<and> list_all isDot t")
    case True
    then have tw: "takeWhile isDot t = t" by (simp add: list_all_iff)
    have k: "?k = length t" by (simp only: tw)
    with True show ?thesis unfolding top by (simp add: rx_match.simps captured_def)
  next
    case False
    show ?thesis
    proof (cases "t = []")
      case True
      then show ?thesis unfolding top by simp
    next
      case nonempty: False
      with False have "\<not> list_all isDot t" by simp
      then have "takeWhile isDot t \<noteq> t" by (auto simp: list_all_iff)
      then have "?k < length t"
        by (metis length_takeWhile_le le_neq_implies_less takeWhile_eq_take take_all_iff order_refl
            linorder_not_le)
      then have "?E ?k = None" by (simp add: rx_match.simps captured_def)
      with False show ?thesis unfolding top by simp
    qed
  qed
qed

lemma gap_then_content:
  "map_option fst (rx_match [Plus isSpace, CapPlus isDot, Eol] p r)
   = (let ws = takeWhile isSpace r; rest = dropWhile isSpace r
      in if ws = [] then None
         else if rest = []
         then (if 2 \<le> length ws \<and> isDot (last ws) then Some [last ws] else None)
         else (if list_all isDot rest then Some rest else None))"
proof -
  let ?ws = "takeWhile isSpace r"
  let ?rest = "dropWhile isSpace r"
  let ?k = "length ?ws"
  let ?H = "\<lambda>n. advance n (rx_match [CapPlus isDot, Eol] (p + n) (drop n r))"
  have H: "?H n = (if drop n r \<noteq> [] \<and> list_all isDot (drop n r)
                   then Some (drop n r, n + length (drop n r)) else None)" for n
    by (simp add: dot_to_end advance_def)
  have m: "rx_match [Plus isSpace, CapPlus isDot, Eol] p r
           = first_some (map ?H (rev [1 ..< Suc ?k]))" by (simp only: rx_match.simps(5))
  have dk: "drop ?k r = ?rest" by (rule dropWhile_eq_drop [symmetric])
  have split: "drop n r = take (?k - n) (drop n r) @ ?rest" if "n \<le> ?k" for n
  proof -
    have "drop n r = take (?k - n) (drop n r) @ drop (?k - n) (drop n r)"
      by (simp only: append_take_drop_id)
    also have "drop (?k - n) (drop n r) = drop ?k r" using that by simp
    finally show ?thesis unfolding dk .
  qed
  show ?thesis
  proof (cases "?ws = []")
    case True
    then show ?thesis unfolding m by simp
  next
    case ws: False
    then have k1: "1 \<le> ?k" by (cases ?ws) auto
    show ?thesis
    proof (cases "?rest = []")
      case False
      show ?thesis
      proof (cases "list_all isDot ?rest")
        case True
        have "?H ?k = Some (?rest, ?k + length ?rest)"
          using H [of ?k] False True by (simp only: dk if_True simp_thms)
        then have "first_some (map ?H (rev [1 ..< Suc ?k])) = Some (?rest, ?k + length ?rest)"
          unfolding first_some_down [of ?H 1 ?k] using k1 ws by simp
        then have "rx_match [Plus isSpace, CapPlus isDot, Eol] p r = Some (?rest, ?k + length ?rest)"
          by (simp only: m)
        then show ?thesis using ws False True by (auto simp: Let_def)
      next
        case nd: False
        have "?H n = None" if "n \<le> ?k" for n
        proof -
          have "\<not> list_all isDot (drop n r)"
            using nd by (subst split [OF that]) simp
          then show ?thesis unfolding H by simp
        qed
        then have "first_some (map ?H (rev [1 ..< Suc ?k])) = None"
          by (intro first_some_None) auto
        then have "rx_match [Plus isSpace, CapPlus isDot, Eol] p r = None"
          by (simp only: m)
        then show ?thesis using ws False nd by (auto simp: Let_def)
      qed
    next
      case True
      then have all: "?ws = r" by (metis append_Nil2 takeWhile_dropWhile_id)
      have kr: "?k = length r" by (simp only: all)
      have top: "?H ?k = None" using H [of ?k] by (simp add: kr)
      have down: "first_some (map ?H (rev [1 ..< Suc ?k])) = first_some (map ?H (rev [1 ..< ?k]))"
        unfolding first_some_down [of ?H 1 ?k] using top k1 ws by simp
      have r_ne: "r \<noteq> []" using ws all by auto
      show ?thesis
      proof (cases "2 \<le> ?k \<and> isDot (last ?ws)")
        case yes: True
        then obtain j where j: "?k = Suc j" "1 \<le> j" by (cases ?k) auto
        have "drop j r = [last r]"
          using j kr r_ne by (metis Suc_inject append_butlast_last_id append_eq_conv_conj
              length_append_singleton length_butlast diff_Suc_1)
        then have "?H j = Some ([last r], j + 1)"
          using H [of j] yes all by simp
        then have "first_some (map ?H (rev [1 ..< Suc j])) = Some ([last r], j + 1)"
          unfolding first_some_down [of ?H 1 j] using j by simp
        moreover have "first_some (map ?H (rev [1 ..< Suc ?k])) = first_some (map ?H (rev [1 ..< Suc j]))"
          unfolding down by (simp only: j(1))
        ultimately have "rx_match [Plus isSpace, CapPlus isDot, Eol] p r = Some ([last r], j + 1)"
          by (simp only: m)
        then show ?thesis using ws True yes by (simp only: Let_def all) simp
      next
        case no: False
        have "?H n = None" if "1 \<le> n" "n < ?k" for n
        proof -
          from no that have nd: "\<not> isDot (last r)" using all by auto
          have "drop n r \<noteq> []" using that kr by simp
          then have "last (drop n r) = last r" by (simp add: last_drop that kr)
          with nd \<open>drop n r \<noteq> []\<close> have "\<not> list_all isDot (drop n r)"
            by (metis last_in_set list_all_iff)
          then show ?thesis unfolding H by simp
        qed
        then have "first_some (map ?H (rev [1 ..< ?k])) = None"
          by (intro first_some_None) auto
        then have "rx_match [Plus isSpace, CapPlus isDot, Eol] p r = None"
          by (simp only: m down)
        then show ?thesis using ws True no by (simp only: Let_def all) simp
      qed
    qed
  qed
qed

lemma fst_advance [simp]: "map_option fst (advance n x) = map_option fst x"
  by (cases x) (auto simp: advance_def)

lemma bulletMatch_backtracking:
  "bulletMatch line = map_option fst (rx_match bulletItems 0 line)"
proof -
  let ?B = "\<lambda>c. c = CHR ''-'' \<or> c = CHR ''*''"
  let ?tail = "[Plus isSpace, CapPlus isDot, Eol]"
  let ?k = "length (takeWhile isSpace line)"
  let ?F = "\<lambda>n. advance n (rx_match (One ?B # ?tail) (0 + n) (drop n line))"
  have none: "?F n = None" if "0 \<le> n" "n < ?k" for n
  proof -
    from in_run_nth [OF that(2)] obtain c t where d: "drop n line = c # t" and c: "isSpace c"
      by blast
    from c have "\<not> ?B c" by (auto simp: isSpace_def)
    then show ?thesis by (simp only: d) (simp add: rx_match.simps advance_def)
  qed
  have "rx_match bulletItems 0 line = first_some (map ?F (rev [0 ..< Suc ?k]))"
    by (simp only: bulletItems_def rx_match.simps(4,7) refl if_True)
  also have "\<dots> = ?F ?k"
    using first_some_top [of 0 ?k ?F, OF none] by simp
  also have "drop ?k line = dropWhile isSpace line"
    by (rule dropWhile_eq_drop [symmetric])
  finally have m: "rx_match bulletItems 0 line
      = advance ?k (rx_match (One ?B # ?tail) (0 + ?k) (dropWhile isSpace line))" .
  show ?thesis
  proof (cases "dropWhile isSpace line")
    case Nil
    show ?thesis unfolding m bulletMatch_def Nil by (simp add: rx_match.simps)
  next
    case (Cons c r)
    show ?thesis
    proof (cases "?B c")
      case True
      have "map_option fst (rx_match bulletItems 0 line)
            = map_option fst (rx_match ?tail (0 + ?k + 1) r)"
        unfolding m Cons using True by (simp add: rx_match.simps(3))
      also have "\<dots> = bulletMatch line"
        unfolding gap_then_content bulletMatch_def Cons using True by (simp add: Let_def)
      finally show ?thesis by simp
    next
      case False
      then show ?thesis unfolding m bulletMatch_def Cons by (simp add: rx_match.simps(3))
    qed
  qed
qed

text \<open>
  So the closed forms used by the loops are the backtracking semantics of the three
  expressions of the source.
\<close>

lemma regex_exec_bold: "regex_exec boldRegex s lastIndex = items_exec boldItems s lastIndex"
  unfolding regex_exec_def items_exec_def bold_match_backtracking ..

lemma regex_exec_complex:
  "regex_exec complexWordRegex s lastIndex = items_exec complexWordItems s lastIndex"
  unfolding regex_exec_def items_exec_def complex_match_backtracking ..

lemma bulletItems_later: "0 < i \<Longrightarrow> rx_match bulletItems i t = None"
  by (simp add: bulletItems_def rx_match.simps)

lemma bulletMatch_items_match: "bulletMatch line = items_match bulletItems line"
proof -
  let ?f = "\<lambda>i. rx_match bulletItems i (drop i line)"
  have u: "[0 ..< Suc (length line)] = 0 # [1 ..< Suc (length line)]"
    by (subst upt_conv_Cons) simp_all
  have "first_some (map ?f [1 ..< Suc (length line)]) = None"
  proof (rule first_some_None, rule ballI)
    fix x assume "x \<in> set (map ?f [1 ..< Suc (length line)])"
    then have "x \<in> ?f ` {1 ..< Suc (length line)}" by (simp only: set_map set_upt)
    then obtain i where i: "x = ?f i" "i \<in> {1 ..< Suc (length line)}" by (rule imageE)
    from i(2) have "0 < i" by simp
    then show "x = None" unfolding i(1) by (rule bulletItems_later)
  qed
  then have "first_some (map ?f (0 # [1 ..< Suc (length line)])) = ?f 0"
    by (cases "?f 0") simp_all
  then have "first_some (map ?f [0 ..< Suc (length line)]) = rx_match bulletItems 0 line"
    by (simp only: u drop_0)
  then show ?thesis by (simp only: items_match_def bulletMatch_backtracking)
qed

subsection \<open>Facts about the block parser\<close>

lemma split_nl_not_Nil [simp]: "split_nl s \<noteq> []"
  by (induction s) (auto split: list.splits)

lemma split_nl_append_line:
  "CHR ''\<newline>'' \<notin> set l \<Longrightarrow> split_nl (l @ CHR ''\<newline>'' # s) = l # split_nl s"
  by (induction l) (auto split: list.splits)

lemma split_nl_single: "CHR ''\<newline>'' \<notin> set l \<Longrightarrow> split_nl l = [l]"
  by (induction l) (auto split: list.splits)

lemma split_nl_join_nl:
  "ls \<noteq> [] \<Longrightarrow> \<forall>l \<in> set ls. CHR ''\<newline>'' \<notin> set l \<Longrightarrow> split_nl (join_nl ls) = ls"
proof (induction ls rule: join_nl.induct)
  case 1
  then show ?case by simp
next
  case (2 l)
  then show ?case by (simp add: split_nl_single)
next
  case (3 l v va)
  then show ?case by (simp add: split_nl_append_line)
qed

lemma split_nl_no_newline: "l \<in> set (split_nl s) \<Longrightarrow> CHR ''\<newline>'' \<notin> set l"
  by (induction s arbitrary: l) (auto split: list.splits if_splits)

lemma join_nl_split_nl: "join_nl (split_nl s) = s"
proof (induction s)
  case Nil
  then show ?case by simp
next
  case (Cons c s)
  obtain l ls where sp: "split_nl s = l # ls" by (cases "split_nl s") auto
  show ?case
  proof (cases "c = CHR ''\<newline>''")
    case True
    with Cons sp show ?thesis by simp
  next
    case False
    with Cons sp show ?thesis by (cases ls) auto
  qed
qed

lemma foldl_bullets:
  assumes "list_all2 (\<lambda>b g. bulletMatch b = Some g) bs gs" "currentParagraph st = []"
  shows "foldl processLine st bs = st\<lparr>currentList := currentList st @ map trim gs\<rparr>"
  using assms
proof (induction bs gs arbitrary: st rule: list_all2_induct)
  case Nil
  then show ?case by simp
next
  case (Cons b bs g gs)
  have "processLine st b = st\<lparr>currentList := currentList st @ [trim g]\<rparr>"
    using Cons.hyps(1) Cons.prems by (simp add: processLine_def flushParagraph_def)
  moreover have "currentParagraph (st\<lparr>currentList := currentList st @ [trim g]\<rparr>) = []"
    using Cons.prems by simp
  ultimately show ?case using Cons.IH [of "st\<lparr>currentList := currentList st @ [trim g]\<rparr>"]
    by simp
qed

lemma bulletMatch_shape:
  assumes "list_all isSpace indent" "m = CHR ''-'' \<or> m = CHR ''*''"
    "gap \<noteq> []" "list_all isSpace gap" "c \<noteq> []" "\<not> isSpace (hd c)" "list_all isDot c"
  shows "bulletMatch (indent @ m # gap @ c) = Some c"
proof -
  have m: "\<not> isSpace m" using assms(2) by (auto simp: isSpace_def)
  have d: "dropWhile isSpace (indent @ m # gap @ c) = m # gap @ c"
    using assms(1) m by (simp add: list_all_iff dropWhile_append2)
  obtain x xs where c: "c = x # xs" using assms(5) by (cases c) auto
  have t: "takeWhile isSpace (gap @ c) = gap"
    using assms(4,6) c by (simp add: list_all_iff takeWhile_append2)
  have r: "dropWhile isSpace (gap @ c) = c"
    using assms(4,6) c by (simp add: list_all_iff dropWhile_append2)
  show ?thesis
    unfolding bulletMatch_def d using assms(2,3,5,7) by (auto simp: t r Let_def)
qed

lemma paragraph_bullets_paragraph:
  assumes bs: "bs \<noteq> []" "list_all2 (\<lambda>b g. bulletMatch b = Some g) bs gs"
    and nl: "\<forall>l \<in> set (p # bs @ [q]). CHR ''\<newline>'' \<notin> set l"
    and p: "bulletMatch p = None" "trim p \<noteq> []"
    and q: "bulletMatch q = None" "trim q \<noteq> []"
  shows "parseMarkdownLists (join_nl (p # bs @ [q]))
         = [Paragraph p, BulletList (map trim gs), Paragraph q]"
proof -
  let ?init = "\<lparr>result = [], currentList = [], currentParagraph = []\<rparr>"
  obtain b bs' g gs' where c: "bs = b # bs'" "gs = g # gs'"
    and b: "bulletMatch b = Some g" and r: "list_all2 (\<lambda>b g. bulletMatch b = Some g) bs' gs'"
    using bs by (cases bs; cases gs) auto
  have sp: "split_nl (join_nl (p # bs @ [q])) = p # bs @ [q]"
    using nl by (intro split_nl_join_nl) simp_all
  have s1: "processLine ?init p = \<lparr>result = [], currentList = [], currentParagraph = [p]\<rparr>"
    using p by (simp add: processLine_def flushList_def)
  have s2: "processLine \<lparr>result = [], currentList = [], currentParagraph = [p]\<rparr> b
      = \<lparr>result = [Paragraph p], currentList = [trim g], currentParagraph = []\<rparr>"
    using b by (simp add: processLine_def flushParagraph_def)
  have s3: "foldl processLine \<lparr>result = [Paragraph p], currentList = [trim g], currentParagraph = []\<rparr> bs'
      = \<lparr>result = [Paragraph p], currentList = trim g # map trim gs', currentParagraph = []\<rparr>"
    using foldl_bullets [OF r, of "\<lparr>result = [Paragraph p], currentList = [trim g], currentParagraph = []\<rparr>"]
    by simp
  have s4: "processLine \<lparr>result = [Paragraph p], currentList = trim g # map trim gs', currentParagraph = []\<rparr> q
      = \<lparr>result = [Paragraph p, BulletList (trim g # map trim gs')], currentList = [],
          currentParagraph = [q]\<rparr>"
    using q by (simp add: processLine_def flushList_def)
  have "foldl processLine ?init (p # bs @ [q])
      = \<lparr>result = [Paragraph p, BulletList (trim g # map trim gs')], currentList = [],
          currentParagraph = [q]\<rparr>"
    by (simp add: c s1 s2 s3 s4)
  then show ?thesis
    unfolding parseMarkdownLists_def sp emptyParse_def
    by (simp add: flushParagraph_def flushList_def c)
qed

lemma flushParagraph_lines:
  assumes "state_ok st"
  shows "state_lines (flushParagraph st) = state_lines st"
    and "state_ok (flushParagraph st)" and "currentParagraph (flushParagraph st) = []"
    and "currentList (flushParagraph st) = currentList st"
proof -
  show "currentParagraph (flushParagraph st) = []"
    and "currentList (flushParagraph st) = currentList st"
    by (simp_all add: flushParagraph_def)
  show "state_lines (flushParagraph st) = state_lines st"
  proof (cases "currentParagraph st = []")
    case True
    then show ?thesis by (simp add: flushParagraph_def)
  next
    case False
    with assms have "split_nl (join_nl (currentParagraph st)) = currentParagraph st"
      and "currentList st = []"
      by (auto simp: state_ok_def intro: split_nl_join_nl)
    with False show ?thesis by (simp add: flushParagraph_def state_lines_def)
  qed
  show "state_ok (flushParagraph st)"
    using assms by (auto simp: flushParagraph_def state_ok_def)
qed

lemma flushList_lines:
  assumes "state_ok st"
  shows "state_lines (flushList st) = state_lines st"
    and "state_ok (flushList st)" and "currentList (flushList st) = []"
    and "currentParagraph (flushList st) = currentParagraph st"
proof -
  show "currentList (flushList st) = []"
    and "currentParagraph (flushList st) = currentParagraph st"
    by (simp_all add: flushList_def)
  show "state_lines (flushList st) = state_lines st"
    using assms by (auto simp: flushList_def state_lines_def state_ok_def)
  show "state_ok (flushList st)"
    using assms by (auto simp: flushList_def state_ok_def)
qed

lemma processLine_lines:
  assumes ok: "state_ok st" and nl: "CHR ''\<newline>'' \<notin> set l"
  shows "state_ok (processLine st l)"
    and "state_lines (processLine st l) @ map line_out (kept_lines (currentParagraph (processLine st l) \<noteq> []) ls)
         = state_lines st @ map line_out (kept_lines (currentParagraph st \<noteq> []) (l # ls))"
proof -
  show "state_ok (processLine st l)"
  proof (cases "bulletMatch l")
    case None
    then show ?thesis
      using flushList_lines(2,3,4) [OF ok] nl
      by (auto simp: processLine_def Let_def state_ok_def)
  next
    case (Some g)
    then show ?thesis
      using flushParagraph_lines(2,3,4) [OF ok]
      by (auto simp: processLine_def Let_def state_ok_def)
  qed
  show "state_lines (processLine st l) @ map line_out (kept_lines (currentParagraph (processLine st l) \<noteq> []) ls)
         = state_lines st @ map line_out (kept_lines (currentParagraph st \<noteq> []) (l # ls))"
  proof (cases "bulletMatch l")
    case None
    let ?s = "flushList st"
    have a: "state_lines ?s = state_lines st" "currentList ?s = []"
      "currentParagraph ?s = currentParagraph st"
      using flushList_lines [OF ok] by simp_all
    show ?thesis
    proof (cases "trim l = [] \<and> currentParagraph st = []")
      case True
      then show ?thesis using None a by (simp add: processLine_def Let_def)
    next
      case False
      then have "processLine st l = ?s\<lparr>currentParagraph := currentParagraph ?s @ [l]\<rparr>"
        using None a by (auto simp: processLine_def Let_def)
      moreover have "state_lines (?s\<lparr>currentParagraph := currentParagraph ?s @ [l]\<rparr>)
          = state_lines st @ [l]"
        using a by (simp add: state_lines_def)
      ultimately show ?thesis using None False by (auto simp: line_out_def)
    qed
  next
    case (Some g)
    let ?s = "flushParagraph st"
    have a: "state_lines ?s = state_lines st" "currentParagraph ?s = []"
      using flushParagraph_lines [OF ok] by simp_all
    have "processLine st l = ?s\<lparr>currentList := currentList ?s @ [trim g]\<rparr>"
      using Some by (simp add: processLine_def Let_def)
    moreover have "state_lines (?s\<lparr>currentList := currentList ?s @ [trim g]\<rparr>)
        = state_lines st @ [trim g]"
      using a by (simp add: state_lines_def)
    ultimately show ?thesis using Some a by (simp add: line_out_def)
  qed
qed

lemma foldl_processLine_lines:
  assumes "state_ok st" "\<forall>l \<in> set ls. CHR ''\<newline>'' \<notin> set l"
  shows "state_ok (foldl processLine st ls)
       \<and> state_lines (foldl processLine st ls)
           = state_lines st @ map line_out (kept_lines (currentParagraph st \<noteq> []) ls)"
  using assms
proof (induction ls arbitrary: st)
  case Nil
  then show ?case by simp
next
  case (Cons l ls)
  from Cons.prems have ok: "state_ok st" and nl: "CHR ''\<newline>'' \<notin> set l"
    and rest: "\<forall>l \<in> set ls. CHR ''\<newline>'' \<notin> set l" by simp_all
  from Cons.IH [OF processLine_lines(1) [OF ok nl] rest] processLine_lines(2) [OF ok nl, of ls]
  show ?case by simp
qed

lemma parseMarkdownLists_lines:
  "(kept_lines False (split_nl s) \<noteq> [] \<longrightarrow>
      concat (map block_lines (parseMarkdownLists s))
        = map line_out (kept_lines False (split_nl s)))
   \<and> (kept_lines False (split_nl s) = [] \<longrightarrow> parseMarkdownLists s = [Paragraph s])"
proof -
  let ?init = "emptyParse"
  let ?st = "foldl processLine ?init (split_nl s)"
  let ?fin = "flushList (flushParagraph ?st)"
  have i: "state_ok ?init" "state_lines ?init = []"
    by (simp_all add: state_ok_def state_lines_def emptyParse_def)
  have nl: "\<forall>l \<in> set (split_nl s). CHR ''\<newline>'' \<notin> set l"
    by (simp add: split_nl_no_newline)
  from foldl_processLine_lines [OF i(1) nl] i(2)
  have ok: "state_ok ?st"
    and ln: "state_lines ?st = map line_out (kept_lines False (split_nl s))"
    by (simp_all add: emptyParse_def)
  have fp: "state_ok (flushParagraph ?st)" "state_lines (flushParagraph ?st) = state_lines ?st"
    "currentParagraph (flushParagraph ?st) = []"
    using flushParagraph_lines [OF ok] by simp_all
  have fl: "state_ok ?fin" "state_lines ?fin = state_lines ?st"
    "currentList ?fin = []" "currentParagraph ?fin = []"
    using flushList_lines [OF fp(1)] fp by simp_all
  have flat: "concat (map block_lines (result ?fin)) = map line_out (kept_lines False (split_nl s))"
    using fl ln by (simp add: state_lines_def)
  have ne: "result ?fin = [] \<longleftrightarrow> kept_lines False (split_nl s) = []"
  proof
    assume "result ?fin = []"
    with flat show "kept_lines False (split_nl s) = []" by simp
  next
    assume "kept_lines False (split_nl s) = []"
    with flat have "concat (map block_lines (result ?fin)) = []" by simp
    moreover have "\<forall>b \<in> set (result ?fin). block_lines b \<noteq> []"
      using fl(1) by (simp add: state_ok_def)
    ultimately show "result ?fin = []" by (cases "result ?fin") auto
  qed
  show ?thesis
    using flat ne by (simp add: parseMarkdownLists_def Let_def)
qed

subsection \<open>The definition popover\<close>

text \<open>
  C10. A failed definition lookup writes the fixed text
  "Failed to load definition. Please try again." into the popover's definition and
  clears the loading flag; it changes no other cell of the session: the session error,
  the summary, the chat transcript, the input text and the selected file (and every
  remaining cell) are the ones before.
\<close>

theorem failed_definition_frame:
  "wordDefinition (definitionRejected word st) = ''Failed to load definition. Please try again.''
   \<and> isLoadingDefinition (definitionRejected word st) = False
   \<and> error (definitionRejected word st) = error st
   \<and> summary (definitionRejected word st) = summary st
   \<and> chatMessages (definitionRejected word st) = chatMessages st
   \<and> inputText (definitionRejected word st) = inputText st
   \<and> selectedFile (definitionRejected word st) = selectedFile st
   \<and> definitionRejected word st
       = st\<lparr>wordDefinition := wordDefinition (definitionRejected word st),
            isLoadingDefinition := isLoadingDefinition (definitionRejected word st)\<rparr>"
  by (simp add: definitionRejected_def)

text \<open>
  C7. When a term is activated while it is the open term and its definition text is
  there (non-empty), the popover closes: the open term becomes none, the text is emptied
  and no lookup is issued. Activating the same term once more reopens it in a fresh
  loading state: the term is open, its text is empty, the loading flag is set and a
  lookup for the term is issued.
\<close>

theorem toggle_closes_then_reopens:
  assumes "clickedWord st = Some word" and "wordDefinition st \<noteq> []"
  shows "clickedWord (fst (handleWordClick word r2 st)) = None
       \<and> wordDefinition (fst (handleWordClick word r2 st)) = []
       \<and> snd (handleWordClick word r2 st) = None
       \<and> clickedWord (fst (handleWordClick word r3 (fst (handleWordClick word r2 st)))) = Some word
       \<and> wordDefinition (fst (handleWordClick word r3 (fst (handleWordClick word r2 st)))) = []
       \<and> isLoadingDefinition (fst (handleWordClick word r3 (fst (handleWordClick word r2 st))))
       \<and> snd (handleWordClick word r3 (fst (handleWordClick word r2 st)))
           = Some (GetWordDefinition word)"
  using assms by (simp add: handleWordClick_def Let_def)

text \<open>
  The scenario of the claim from the start of a session: the first activation of
  "entropy" opens it, its lookup completes, the second activation closes the popover
  and the third one reopens it, loading.
\<close>

theorem toggle_closes_then_reopens_witness:
  "clickedWord (definitionResolved ''entropy'' ''a measure of disorder''
       (fst (handleWordClick ''entropy'' rect0 initial_state))) = Some ''entropy''
   \<and> wordDefinition (definitionResolved ''entropy'' ''a measure of disorder''
       (fst (handleWordClick ''entropy'' rect0 initial_state))) \<noteq> []
   \<and> clickedWord (fst (handleWordClick ''entropy'' rect0
        (definitionResolved ''entropy'' ''a measure of disorder''
          (fst (handleWordClick ''entropy'' rect0 initial_state))))) = None
   \<and> clickedWord (fst (handleWordClick ''entropy'' rect0 (fst (handleWordClick ''entropy'' rect0
        (definitionResolved ''entropy'' ''a measure of disorder''
          (fst (handleWordClick ''entropy'' rect0 initial_state))))))) = Some ''entropy''
   \<and> isLoadingDefinition (fst (handleWordClick ''entropy'' rect0 (fst (handleWordClick ''entropy'' rect0
        (definitionResolved ''entropy'' ''a measure of disorder''
          (fst (handleWordClick ''entropy'' rect0 initial_state)))))))"
proof -
  let ?s = "definitionResolved ''entropy'' ''a measure of disorder''
       (fst (handleWordClick ''entropy'' rect0 initial_state))"
  have a: "clickedWord ?s = Some ''entropy''"
    by (simp add: handleWordClick_def definitionResolved_def initial_state_def Let_def)
  have b: "wordDefinition ?s \<noteq> []"
    by (simp add: definitionResolved_def)
  from toggle_closes_then_reopens [OF a b, of rect0 rect0] a b show ?thesis by simp
qed

text \<open>
  C1, as stated, fails: the user activates "A", then "B" while the lookup for "A" is
  pending, and the result for "A" arrives. The open term is still "B", but the
  definition text now holds the text of "A": the result is stored, not discarded.
\<close>

theorem stale_definition_is_stored:
  "clickedWord (definitionResolved ''A'' ''meaning of A''
      (fst (handleWordClick ''B'' rect0 (fst (handleWordClick ''A'' rect0 initial_state)))))
     = Some ''B''
   \<and> wordDefinition (definitionResolved ''A'' ''meaning of A''
      (fst (handleWordClick ''B'' rect0 (fst (handleWordClick ''A'' rect0 initial_state)))))
     = ''meaning of A''"
  by (simp add: handleWordClick_def definitionResolved_def initial_state_def Let_def)

text \<open>
  C1, amended. Let the activation of a term \<open>a\<close> issue a lookup, and let a term \<open>b\<close> be
  activated before that lookup completes. The second activation issues a lookup for
  \<open>b\<close> and makes \<open>b\<close> the open term. When the result \<open>d\<close> for \<open>a\<close> arrives, it is stored
  without any comparison of terms: the open term is still \<open>b\<close>, the definition text is
  \<open>d\<close>, and the loading flag is cleared. A failure of the lookup for \<open>a\<close> is stored
  in the same way, as the fixed failure text.
\<close>

theorem stale_definition_overwrites:
  assumes "snd (handleWordClick a ra st) = Some (GetWordDefinition a)"
  shows "snd (handleWordClick b rb (fst (handleWordClick a ra st))) = Some (GetWordDefinition b)
       \<and> clickedWord (definitionResolved a d
            (fst (handleWordClick b rb (fst (handleWordClick a ra st))))) = Some b
       \<and> wordDefinition (definitionResolved a d
            (fst (handleWordClick b rb (fst (handleWordClick a ra st))))) = d
       \<and> \<not> isLoadingDefinition (definitionResolved a d
            (fst (handleWordClick b rb (fst (handleWordClick a ra st)))))
       \<and> clickedWord (definitionRejected a
            (fst (handleWordClick b rb (fst (handleWordClick a ra st))))) = Some b
       \<and> wordDefinition (definitionRejected a
            (fst (handleWordClick b rb (fst (handleWordClick a ra st)))))
           = ''Failed to load definition. Please try again.''"
  using assms
  by (simp add: handleWordClick_def definitionResolved_def definitionRejected_def Let_def
      split: if_splits)

theorem stale_definition_overwrites_witness:
  "snd (handleWordClick ''enzyme'' rect0 initial_state) = Some (GetWordDefinition ''enzyme'')
   \<and> clickedWord (definitionResolved ''enzyme'' ''a protein that speeds up a reaction''
        (fst (handleWordClick ''osmosis'' rect0 (fst (handleWordClick ''enzyme'' rect0 initial_state)))))
       = Some ''osmosis''
   \<and> wordDefinition (definitionResolved ''enzyme'' ''a protein that speeds up a reaction''
        (fst (handleWordClick ''osmosis'' rect0 (fst (handleWordClick ''enzyme'' rect0 initial_state)))))
       = ''a protein that speeds up a reaction''"
proof -
  have h: "snd (handleWordClick ''enzyme'' rect0 initial_state) = Some (GetWordDefinition ''enzyme'')"
    by (simp add: handleWordClick_def initial_state_def Let_def)
  from stale_definition_overwrites [OF h, of "''osmosis''" rect0 "''a protein that speeds up a reaction''"] h
  show ?thesis by simp
qed

subsection \<open>Questions\<close>

text \<open>
  C8. Let an ask pass its checks and issue its call, and let the answer request fail,
  with or without an error message. Then the answering flag is cleared, the chat
  transcript is the one before the ask followed by the user's question and by exactly
  one assistant entry with the fixed text "Sorry, I encountered an error. Please try
  again.", and the session error is set as well: to the failure's message, or to its
  own fallback text when there is none. On any state, the failure appends exactly
  that one assistant entry.
\<close>

theorem ask_failure_visible:
  assumes "snd (handleAskQuestion now st0) = Some call"
  shows "chatMessages (answerRejected later err_message (fst (handleAskQuestion now st0))) =
           chatMessages st0
             @ [\<lparr>msg_type = User, content = trim (question st0), msg_id = now\<rparr>,
                \<lparr>msg_type = Assistant,
                 content = ''Sorry, I encountered an error. Please try again.'',
                 msg_id = later + 1\<rparr>]
       \<and> isAnswering (fst (handleAskQuestion now st0))
       \<and> \<not> isAnswering (answerRejected later err_message (fst (handleAskQuestion now st0)))
       \<and> error (answerRejected later err_message (fst (handleAskQuestion now st0)))
           = orElse err_message ''Failed to answer question. Please check your API key.''
       \<and> (\<forall>st. chatMessages (answerRejected later err_message st) =
                  chatMessages st
                    @ [\<lparr>msg_type = Assistant,
                        content = ''Sorry, I encountered an error. Please try again.'',
                        msg_id = later + 1\<rparr>])"
  using assms
  by (simp add: answerRejected_def handleAskQuestion_def Let_def split: if_splits)

theorem ask_failure_visible_witness:
  "snd (handleAskQuestion 1000 (initial_state\<lparr>summary := ''Plants make food.'', question := '' How? ''\<rparr>))
     = Some (AnswerQuestion ''Plants make food.'' ''How?'')
   \<and> chatMessages (answerRejected 2000 None
        (fst (handleAskQuestion 1000
           (initial_state\<lparr>summary := ''Plants make food.'', question := '' How? ''\<rparr>)))) =
       [\<lparr>msg_type = User, content = ''How?'', msg_id = 1000\<rparr>,
        \<lparr>msg_type = Assistant, content = ''Sorry, I encountered an error. Please try again.'',
         msg_id = 2001\<rparr>]"
proof -
  have t: "trim '' How? '' = ''How?''" by code_simp
  have h: "snd (handleAskQuestion 1000
              (initial_state\<lparr>summary := ''Plants make food.'', question := '' How? ''\<rparr>))
           = Some (AnswerQuestion ''Plants make food.'' ''How?'')"
    by (simp add: handleAskQuestion_def initial_state_def t Let_def)
  have c: "chatMessages (initial_state\<lparr>summary := ''Plants make food.'', question := '' How? ''\<rparr>) = []"
    by (simp add: initial_state_def)
  from ask_failure_visible [OF h, of 2000 None, THEN conjunct1] h t c show ?thesis
    by simp
qed

subsection \<open>Summaries\<close>

text \<open>
  C4, as stated, fails: with non-blank input text and a PDF selected, the exclusive
  precondition of the specification does not hold, and yet the handler raises no error
  and calls the client (with the file).
\<close>

theorem summarize_with_text_and_pdf:
  "\<not> spec_beginSummarize_pre (initial_state\<lparr>inputText := ''some text'', selectedFile := Some pdf0\<rparr>)
   \<and> snd (handleGenerateSummary (initial_state\<lparr>inputText := ''some text'', selectedFile := Some pdf0\<rparr>))
       = Some (GenerateSummary None (Some pdf0) (Some ''application/pdf''))
   \<and> error (fst (handleGenerateSummary
        (initial_state\<lparr>inputText := ''some text'', selectedFile := Some pdf0\<rparr>))) = []
   \<and> spec_beginSummarize_pre (initial_state\<lparr>selectedFile := Some txt0\<rparr>)
   \<and> snd (handleGenerateSummary (initial_state\<lparr>selectedFile := Some txt0\<rparr>)) = None"
proof -
  have t: "trim ''some text'' = ''some text''" by code_simp
  have e: "trim [] = []" by (simp add: trim_def)
  have p: "isPDF (initial_state\<lparr>inputText := ''some text'', selectedFile := Some pdf0\<rparr>)"
    unfolding isPDF_def pdf0_def by (simp, code_simp)
  have q: "\<not> isPDF (initial_state\<lparr>selectedFile := Some txt0\<rparr>)"
    unfolding isPDF_def txt0_def by (simp, code_simp)
  show ?thesis
    using p q
    by (simp add: spec_beginSummarize_pre_def handleGenerateSummary_def t e initial_state_def)
qed

text \<open>
  C4, amended. Starting a summarize requires that the input text is non-blank or that
  the selected file is a PDF (one of the two is enough, both may hold, and a selected
  file that is not a PDF does not count). When this holds, the busy flag is set and
  the error, the summary and the chat are cleared before the one client call, which
  carries the file when it is a PDF and the text otherwise; nothing else changes. When
  it fails, the error text is set, nothing else changes, and no client call is made.
\<close>

theorem summarize_contract:
  "(trim (inputText st) \<noteq> [] \<or> isPDF st \<longrightarrow>
      handleGenerateSummary st =
        (st\<lparr>isGeneratingSummary := True, error := [], summary := [], chatMessages := []\<rparr>,
         Some (if isPDF st then GenerateSummary None (selectedFile st) (Some ''application/pdf'')
               else GenerateSummary (Some (inputText st)) None None)))
   \<and> (\<not> (trim (inputText st) \<noteq> [] \<or> isPDF st) \<longrightarrow>
      handleGenerateSummary st =
        (st\<lparr>error := ''Please enter some text or upload a file to summarize.''\<rparr>, None))"
  by (simp add: handleGenerateSummary_def)

text \<open>
  A session with a summary and one chat message starts a new summarize from pasted
  text: the chat is emptied and the text is sent. A fresh session has neither text nor
  file: the error is set and no call is made.
\<close>

theorem summarize_contract_witness:
  "trim (inputText (initial_state\<lparr>inputText := ''a long paper'', summary := ''short'',
        chatMessages := [\<lparr>msg_type = User, content = ''why?'', msg_id = 7\<rparr>]\<rparr>)) = ''a long paper''
   \<and> chatMessages (fst (handleGenerateSummary (initial_state\<lparr>inputText := ''a long paper'',
        summary := ''short'',
        chatMessages := [\<lparr>msg_type = User, content = ''why?'', msg_id = 7\<rparr>]\<rparr>))) = []
   \<and> snd (handleGenerateSummary (initial_state\<lparr>inputText := ''a long paper'',
        summary := ''short'',
        chatMessages := [\<lparr>msg_type = User, content = ''why?'', msg_id = 7\<rparr>]\<rparr>))
       = Some (GenerateSummary (Some ''a long paper'') None None)
   \<and> trim (inputText initial_state) = []
   \<and> isPDF initial_state = False
   \<and> handleGenerateSummary initial_state =
       (initial_state\<lparr>error := ''Please enter some text or upload a file to summarize.''\<rparr>, None)"
proof -
  let ?s = "initial_state\<lparr>inputText := ''a long paper'', summary := ''short'',
        chatMessages := [\<lparr>msg_type = User, content = ''why?'', msg_id = 7\<rparr>]\<rparr>"
  have t: "trim ''a long paper'' = ''a long paper''" by code_simp
  have a: "trim (inputText ?s) \<noteq> [] \<or> isPDF ?s" by (simp add: t)
  have n: "\<not> isPDF ?s" by (simp add: isPDF_def initial_state_def)
  have e: "trim (inputText initial_state) = []"
    by (simp add: initial_state_def trim_def)
  have f: "isPDF initial_state = False"
    by (simp add: initial_state_def isPDF_def)
  have b: "\<not> (trim (inputText initial_state) \<noteq> [] \<or> isPDF initial_state)"
    using e f by simp
  from summarize_contract [of ?s, THEN conjunct1, rule_format, OF a]
       summarize_contract [of initial_state, THEN conjunct2, rule_format, OF b] t e f n
  show ?thesis by simp
qed

subsection \<open>Input sources\<close>

text \<open>
  C3, as stated, fails: after a PDF has been selected, typing into the textarea leaves
  the file selected, so text and attachment are both present.
\<close>

theorem text_input_keeps_attachment:
  "selectedFile (textareaOnChange ''typed text'' (fst (handleFileSelect (Some pdf0) initial_state)))
     = Some pdf0
   \<and> inputText (textareaOnChange ''typed text'' (fst (handleFileSelect (Some pdf0) initial_state)))
     = ''typed text''"
proof -
  have v: "validFile pdf0"
    unfolding validFile_def pdf0_def validExtensions_def by (simp, code_simp)
  show ?thesis by (simp add: textareaOnChange_def handleFileSelect_def v Let_def)
qed

text \<open>
  C3, amended. Selecting a file of an accepted type or extension makes it the selected
  attachment and empties the input text. Setting the input text stores the text and
  leaves the selected attachment as it is; this holds for the textarea and for the
  file reader, which puts the content of a selected text file into the input text.
\<close>

theorem input_source_transitions:
  "(validFile f \<longrightarrow>
      inputText (fst (handleFileSelect (Some f) st)) = []
      \<and> selectedFile (fst (handleFileSelect (Some f) st)) = Some f)
   \<and> selectedFile (textareaOnChange v st) = selectedFile st
   \<and> inputText (textareaOnChange v st) = v
   \<and> selectedFile (readerOnload file_content st) = selectedFile st
   \<and> inputText (readerOnload file_content st) = file_content"
  by (simp add: handleFileSelect_def textareaOnChange_def readerOnload_def Let_def)

theorem input_source_transitions_witness:
  "validFile txt0
   \<and> inputText (fst (handleFileSelect (Some txt0) (initial_state\<lparr>inputText := ''pasted''\<rparr>))) = []
   \<and> selectedFile (fst (handleFileSelect (Some txt0) (initial_state\<lparr>inputText := ''pasted''\<rparr>)))
       = Some txt0"
proof -
  have v: "validFile txt0"
    unfolding validFile_def txt0_def validTypes_def by simp
  from input_source_transitions [of txt0 "initial_state\<lparr>inputText := ''pasted''\<rparr>",
         THEN conjunct1, rule_format, OF v] v
  show ?thesis by simp
qed

subsection \<open>The inline parser\<close>

text \<open>
  C2, as stated, fails at its boundary: the empty string contains no markup, and it is
  parsed to one text part with empty content (rendered as one plain span with empty
  text), not to the empty sequence.
\<close>

theorem empty_input_gives_one_text_part:
  "no_markup [] \<and> parseMarkdownBold [] = [TextPart []] \<and> parseMarkdownBold [] \<noteq> []
   \<and> renderInline [] = [Span []] \<and> renderInline [] \<noteq> []"
  by code_simp

text \<open>
  C2, amended. For every input string that contains no markup, the empty string
  included, parsing returns exactly one plain part whose text equals the input:
  \<^verbatim>\<open>parseMarkdownBold\<close> returns the single text part, and the rendering of the string
  is the single plain span. (Nothing is rendered for an empty summary only because
  \<^verbatim>\<open>renderSummary\<close> returns before it parses.)
\<close>

theorem no_markup_single_plain:
  assumes "no_markup s"
  shows "parseMarkdownBold s = [TextPart s] \<and> renderInline s = [Span s]
       \<and> renderSummary [] = []"
  using assms no_markup_inline [OF assms]
  by (simp add: no_markup_def no_markup_bold renderSummary_def)

theorem no_markup_single_plain_witness:
  "no_markup ''2 * 3 [see note] **''
   \<and> parseMarkdownBold ''2 * 3 [see note] **'' = [TextPart ''2 * 3 [see note] **'']
   \<and> renderInline ''2 * 3 [see note] **'' = [Span ''2 * 3 [see note] **'']"
proof -
  have h: "no_markup ''2 * 3 [see note] **''" by code_simp
  from no_markup_single_plain [OF h] h show ?thesis by simp
qed




subsection \<open>The block parser\<close>

text \<open>
  C9. The input "para one", "- item A", "- item B", "paras two" (four lines) is parsed
  to the paragraph "para one", one bullet list with the items "item A" and "item B",
  and the paragraph "paras two". A line made of white space (possibly none), then
  \<open>-\<close> or \<open>*\<close>, then one or more white-space characters, then content that starts
  with another character and has no line terminator, is a bullet line with that
  content. And in general a run of one or more consecutive bullet lines between two
  non-blank lines that are no bullet lines becomes one bullet list of the trimmed
  contents, between the two paragraphs.
\<close>

theorem bullet_grouping:
  "parseMarkdownLists ''para one\<newline>- item A\<newline>- item B\<newline>paras two''
     = [Paragraph ''para one'', BulletList [''item A'', ''item B''], Paragraph ''paras two'']
   \<and> (list_all isSpace indent \<and> (m = CHR ''-'' \<or> m = CHR ''*'') \<and> gap \<noteq> []
        \<and> list_all isSpace gap \<and> c \<noteq> [] \<and> \<not> isSpace (hd c) \<and> list_all isDot c
      \<longrightarrow> bulletMatch (indent @ m # gap @ c) = Some c)
   \<and> (bs \<noteq> [] \<and> list_all2 (\<lambda>b g. bulletMatch b = Some g) bs gs
        \<and> (\<forall>l \<in> set (p # bs @ [q]). CHR ''\<newline>'' \<notin> set l)
        \<and> bulletMatch p = None \<and> trim p \<noteq> [] \<and> bulletMatch q = None \<and> trim q \<noteq> []
      \<longrightarrow> parseMarkdownLists (join_nl (p # bs @ [q]))
            = [Paragraph p, BulletList (map trim gs), Paragraph q])"
proof -
  have "parseMarkdownLists ''para one\<newline>- item A\<newline>- item B\<newline>paras two''
     = [Paragraph ''para one'', BulletList [''item A'', ''item B''], Paragraph ''paras two'']"
    by code_simp
  then show ?thesis
    using bulletMatch_shape [of indent m gap c] paragraph_bullets_paragraph [of bs gs p q]
    by blast
qed

theorem bullet_grouping_witness:
  "bulletMatch ''  * one '' = Some ''one ''
   \<and> bulletMatch ''-   two'' = Some ''two''
   \<and> bulletMatch ''Intro:'' = None \<and> trim ''Intro:'' = ''Intro:''
   \<and> bulletMatch ''The end'' = None \<and> trim ''The end'' = ''The end''
   \<and> join_nl [''Intro:'', ''  * one '', ''-   two'', ''The end'']
       = ''Intro:\<newline>  * one \<newline>-   two\<newline>The end''
   \<and> parseMarkdownLists ''Intro:\<newline>  * one \<newline>-   two\<newline>The end''
       = [Paragraph ''Intro:'', BulletList [''one'', ''two''], Paragraph ''The end'']"
proof -
  have b1: "bulletMatch ''  * one '' = Some ''one ''" by code_simp
  have b2: "bulletMatch ''-   two'' = Some ''two''" by code_simp
  have p: "bulletMatch ''Intro:'' = None" "trim ''Intro:'' = ''Intro:''" by code_simp+
  have q: "bulletMatch ''The end'' = None" "trim ''The end'' = ''The end''" by code_simp+
  have t: "trim ''one '' = ''one''" "trim ''two'' = ''two''" by code_simp+
  have j: "join_nl [''Intro:'', ''  * one '', ''-   two'', ''The end'']
       = ''Intro:\<newline>  * one \<newline>-   two\<newline>The end''" by simp
  have h: "[''  * one '', ''-   two''] \<noteq> []
        \<and> list_all2 (\<lambda>b g. bulletMatch b = Some g) [''  * one '', ''-   two''] [''one '', ''two'']
        \<and> (\<forall>l \<in> set (''Intro:'' # [''  * one '', ''-   two''] @ [''The end'']).
              CHR ''\<newline>'' \<notin> set l)
        \<and> bulletMatch ''Intro:'' = None \<and> trim ''Intro:'' \<noteq> []
        \<and> bulletMatch ''The end'' = None \<and> trim ''The end'' \<noteq> []"
    using b1 b2 p q by simp
  have sh: "list_all isSpace ''  '' \<and> (CHR ''*'' = CHR ''-'' \<or> CHR ''*'' = CHR ''*'')
        \<and> '' '' \<noteq> [] \<and> list_all isSpace '' '' \<and> ''one '' \<noteq> []
        \<and> \<not> isSpace (hd ''one '') \<and> list_all isDot ''one ''"
    by code_simp
  from bullet_grouping [of "''  ''" "CHR ''*''" "'' ''" "''one ''", THEN conjunct2, THEN conjunct1,
         rule_format, OF sh]
  have b1': "bulletMatch ''  * one '' = Some ''one ''" by simp
  from bullet_grouping [of _ _ _ _ "[''  * one '', ''-   two'']" "[''one '', ''two'']"
         "''Intro:''" "''The end''", THEN conjunct2, THEN conjunct2, rule_format, OF h]
  show ?thesis using b1' b2 p q t j by simp
qed

text \<open>
  C5, as stated, fails: in the three lines "- a", "" and "b" the blank second line
  comes after content (the list item) has been accumulated, not at the very start,
  and it is dropped: it closes the list, no paragraph is opened for it, and the
  result is the list followed by the paragraph "b".
\<close>

theorem blank_line_after_list_is_dropped:
  "split_nl ''- a\<newline>\<newline>b'' = [''- a'', [], ''b'']
   \<and> currentList (processLine emptyParse ''- a'') = [''a'']
   \<and> currentParagraph (processLine (processLine emptyParse ''- a'') []) = []
   \<and> result (processLine (processLine emptyParse ''- a'') []) = [BulletList [''a'']]
   \<and> parseMarkdownLists ''- a\<newline>\<newline>b'' = [BulletList [''a''], Paragraph ''b'']"
  by code_simp

text \<open>
  C5, amended. A line that is no bullet line closes the open bullet list, if there is
  one. It is appended as it is to the open paragraph when it is not blank or when a
  paragraph is open, so blank lines inside a paragraph are kept; a bullet line closes
  the open paragraph (and so does the end of the input). A blank line is dropped
  exactly when no paragraph is open, which is the case at the very start and also
  right after a bullet line. For the whole parser: read back as lines, the blocks are
  the kept lines of the input, in order; when no line is kept, the result is the one
  paragraph holding the input.
\<close>

theorem blank_line_handling:
  "(bulletMatch l = None \<longrightarrow>
      currentList (processLine st l) = []
      \<and> result (processLine st l)
          = result st @ (if currentList st = [] then [] else [BulletList (currentList st)])
      \<and> currentParagraph (processLine st l)
          = (if trim l = [] \<and> currentParagraph st = [] then []
             else currentParagraph st @ [l]))
   \<and> (bulletMatch l \<noteq> None \<longrightarrow>
      currentParagraph (processLine st l) = []
      \<and> result (processLine st l)
          = result st @ (if currentParagraph st = [] then []
                         else [Paragraph (join_nl (currentParagraph st))]))
   \<and> (kept_lines False (split_nl s) \<noteq> [] \<longrightarrow>
      concat (map block_lines (parseMarkdownLists s))
        = map line_out (kept_lines False (split_nl s)))
   \<and> (kept_lines False (split_nl s) = [] \<longrightarrow> parseMarkdownLists s = [Paragraph s])"
proof -
  have a: "bulletMatch l = None \<longrightarrow>
      currentList (processLine st l) = []
      \<and> result (processLine st l)
          = result st @ (if currentList st = [] then [] else [BulletList (currentList st)])
      \<and> currentParagraph (processLine st l)
          = (if trim l = [] \<and> currentParagraph st = [] then []
             else currentParagraph st @ [l])"
    by (auto simp: processLine_def flushList_def Let_def)
  have b: "bulletMatch l \<noteq> None \<longrightarrow>
      currentParagraph (processLine st l) = []
      \<and> result (processLine st l)
          = result st @ (if currentParagraph st = [] then []
                         else [Paragraph (join_nl (currentParagraph st))])"
    by (auto simp: processLine_def flushParagraph_def Let_def)
  from a b parseMarkdownLists_lines [of s] show ?thesis by blast
qed

text \<open>
  A blank line inside the open paragraph "intro" is kept; a blank line after the list
  item "a" closes the list and is dropped; the bullet line "- b" closes the open
  paragraph. In a text of seven lines, the blank first line and the blank line after
  the bullet line are left out and the blank line inside the paragraph stays; a text
  of blank lines only comes back as one paragraph.
\<close>

theorem blank_line_handling_witness:
  "bulletMatch [] = None
   \<and> currentParagraph (processLine \<lparr>result = [], currentList = [], currentParagraph = [''intro'']\<rparr> [])
       = [''intro'', []]
   \<and> currentList (processLine emptyParse ''- a'') = [''a'']
   \<and> currentList (processLine (processLine emptyParse ''- a'') []) = []
   \<and> result (processLine (processLine emptyParse ''- a'') []) = [BulletList [''a'']]
   \<and> currentParagraph (processLine (processLine emptyParse ''- a'') []) = []
   \<and> bulletMatch ''- b'' = Some ''b''
   \<and> result (processLine \<lparr>result = [], currentList = [], currentParagraph = [''intro'', []]\<rparr> ''- b'')
       = [Paragraph ''intro\<newline>'']
   \<and> kept_lines False (split_nl ''\<newline>intro\<newline>\<newline>more\<newline>- a\<newline>\<newline>b'')
       = [''intro'', [], ''more'', ''- a'', ''b'']
   \<and> concat (map block_lines
        (parseMarkdownLists ''\<newline>intro\<newline>\<newline>more\<newline>- a\<newline>\<newline>b''))
       = [''intro'', [], ''more'', ''a'', ''b'']
   \<and> kept_lines False (split_nl ''\<newline> \<newline>'') = []
   \<and> parseMarkdownLists ''\<newline> \<newline>'' = [Paragraph ''\<newline> \<newline>'']"
proof -
  let ?open = "\<lparr>result = [], currentList = [], currentParagraph = [''intro'']\<rparr>"
  let ?open2 = "\<lparr>result = [], currentList = [], currentParagraph = [''intro'', []]\<rparr>"
  let ?s = "''\<newline>intro\<newline>\<newline>more\<newline>- a\<newline>\<newline>b''"
  have n: "bulletMatch [] = None" by code_simp
  have t: "trim [] = []" by code_simp
  have b: "bulletMatch ''- b'' = Some ''b''" by code_simp
  have b': "bulletMatch ''- b'' \<noteq> None" using b by simp
  have a: "currentList (processLine emptyParse ''- a'') = [''a'']"
    "currentParagraph (processLine emptyParse ''- a'') = []"
    "result (processLine emptyParse ''- a'') = []" by code_simp+
  have k: "kept_lines False (split_nl ?s) = [''intro'', [], ''more'', ''- a'', ''b'']"
    by code_simp
  have k': "kept_lines False (split_nl ?s) \<noteq> []" using k by simp
  have lo: "map line_out [''intro'', [], ''more'', ''- a'', ''b''] = [''intro'', [], ''more'', ''a'', ''b'']"
    by code_simp
  have e: "kept_lines False (split_nl ''\<newline> \<newline>'') = []" by code_simp
  have j: "join_nl [''intro'', []] = ''intro\<newline>''" by simp
  note w1 = blank_line_handling [of "[]" ?open, THEN conjunct1, rule_format, OF n]
  note w2 = blank_line_handling [of "[]" "processLine emptyParse ''- a''", THEN conjunct1,
      rule_format, OF n]
  note w3 = blank_line_handling [of "''- b''" ?open2, THEN conjunct2, THEN conjunct1,
      rule_format, OF b']
  note w4 = blank_line_handling [of _ _ ?s, THEN conjunct2, THEN conjunct2, THEN conjunct1,
      rule_format, OF k']
  note w5 = blank_line_handling [of _ _ "''\<newline> \<newline>''", THEN conjunct2, THEN conjunct2,
      THEN conjunct2, rule_format, OF e]
  show ?thesis
    using w1 w2 w3 w4 w5 n b a k lo e j t by simp
qed

end
